theory Spec2Isabelle
  imports Complex_Main "HOL-Library.AList" "HOL-Library.Multiset"
begin

section \<open>Python values shared by the modules\<close>

text \<open>
  Exceptions are values: every function of the sources that can raise returns
  \<open>exn + 'a\<close>, with \<open>Inl\<close> for the exception. \<open>exn_str\<close> is Python's \<open>str(e)\<close>.
  Strings are ASCII texts (one \<open>char\<close> per code point).
\<close>

datatype exn =
    ValueError string
  | TypeError string
  | AttributeError string
  | KeyError string
  | OtherError string

fun exn_str :: "exn \<Rightarrow> string" where
  "exn_str (ValueError m) = m"
| "exn_str (TypeError m) = m"
| "exn_str (AttributeError m) = m"
| "exn_str (KeyError m) = m"
| "exn_str (OtherError m) = m"

definition nl :: string where
  "nl = [CHR 0x0A]"

definition quote :: string where
  "quote = [CHR 0x27]"

definition is_space :: "char \<Rightarrow> bool" where
  "is_space c = (let n = (of_char c :: nat) in (9 \<le> n \<and> n \<le> 13) \<or> (28 \<le> n \<and> n \<le> 32))"

definition lower_char :: "char \<Rightarrow> char" where
  "lower_char c =
     (case map_of (zip ''ABCDEFGHIJKLMNOPQRSTUVWXYZ'' ''abcdefghijklmnopqrstuvwxyz'') c of
        None \<Rightarrow> c
      | Some l \<Rightarrow> l)"

definition py_lower :: "string \<Rightarrow> string" where
  "py_lower s = map lower_char s"

definition py_strip :: "string \<Rightarrow> string" where
  "py_strip s = rev (dropWhile is_space (rev (dropWhile is_space s)))"

text \<open>\<open>str.split()\<close> without a separator: the maximal runs of non-whitespace.\<close>

fun split_ws :: "string \<Rightarrow> string \<Rightarrow> string list" where
  "split_ws cur [] = (if cur = [] then [] else [cur])"
| "split_ws cur (c # cs) =
     (if is_space c then (if cur = [] then split_ws [] cs else cur # split_ws [] cs)
      else split_ws (cur @ [c]) cs)"

definition py_split :: "string \<Rightarrow> string list" where
  "py_split s = split_ws [] s"

text \<open>
  \<open>str.split(sep)\<close> for a non-empty separator (every call in the sources passes a
  literal one): the pieces between the occurrences of \<open>sep\<close>, found left to right
  without overlap. \<open>sep in s\<close> is \<open>contains_str\<close>.
\<close>

fun split_sep :: "string \<Rightarrow> string \<Rightarrow> string \<Rightarrow> string list" where
  "split_sep sep cur [] = [cur]"
| "split_sep sep cur (c # cs) =
     (if take (length sep) (c # cs) = sep
      then cur # split_sep sep [] (drop (length sep - 1) cs)
      else split_sep sep (cur @ [c]) cs)"

definition py_split_sep :: "string \<Rightarrow> string \<Rightarrow> string list" where
  "py_split_sep s sep = split_sep sep [] s"

fun contains_str :: "string \<Rightarrow> string \<Rightarrow> bool" where
  "contains_str sep [] = (sep = [])"
| "contains_str sep (c # cs) = (take (length sep) (c # cs) = sep \<or> contains_str sep cs)"

fun py_join :: "string \<Rightarrow> string list \<Rightarrow> string" where
  "py_join sep [] = []"
| "py_join sep [x] = x"
| "py_join sep (x # y # ys) = x @ sep @ py_join sep (y # ys)"

text \<open>
  A slice \<open>xs[lo:hi]\<close> with integer bounds: a negative bound counts from the end, and
  both are clamped to the list. \<open>xs[:hi]\<close> is \<open>py_slice xs 0 hi\<close>.
\<close>

definition slice_index :: "nat \<Rightarrow> int \<Rightarrow> nat" where
  "slice_index n i = (if i < 0 then nat (max 0 (i + int n)) else min (nat i) n)"

definition py_slice :: "'a list \<Rightarrow> int \<Rightarrow> int \<Rightarrow> 'a list" where
  "py_slice xs lo hi =
     (let a = slice_index (length xs) lo; b = slice_index (length xs) hi
      in take (b - a) (drop a xs))"

text \<open>The decimal digits of a number, as an f-string formats it.\<close>

function show_nat :: "nat \<Rightarrow> string" where
  "show_nat n =
     (if n < 10 then [''0123456789'' ! n]
      else show_nat (n div 10) @ [''0123456789'' ! (n mod 10)])"
  by pat_completeness auto
termination
  by (relation "measure (\<lambda>n. n)") auto

declare show_nat.simps [simp del]

text \<open>The values a context dictionary or a JSON document holds.\<close>

datatype jval =
    JNone
  | JInt int
  | JStr string
  | JList "jval list"
  | JDict "(string \<times> jval) list"

type_synonym ctx = "(string \<times> jval) list"

text \<open>\<open>d.get(k, default)\<close> on a dictionary kept in insertion order.\<close>

definition dict_get :: "ctx \<Rightarrow> string \<Rightarrow> jval \<Rightarrow> jval" where
  "dict_get d k dflt = (case map_of d k of None \<Rightarrow> dflt | Some v \<Rightarrow> v)"

section \<open>skill\_manager.py\<close>

text \<open>
  What \<open>yaml.safe\_load\<close> returns for a frontmatter block. A mapping is a Python dict
  (its keys distinct, in insertion order).
\<close>

datatype yaml =
    YNull
  | YBool bool
  | YInt int
  | YStr string
  | YList "yaml list"
  | YMap "(string \<times> yaml) list"

text \<open>
  The keys of the registry \<open>self.skills\<close>: a skill is stored under
  \<open>metadata.name\<close>, whatever YAML value that is. A list or a mapping is unhashable
  (the assignment raises TypeError), and \<open>True\<close> and \<open>1\<close> are the same key.
\<close>

datatype pykey = KNone | KInt int | KStr string

fun hash_key :: "yaml \<Rightarrow> exn + pykey" where
  "hash_key YNull = Inr KNone"
| "hash_key (YBool b) = Inr (KInt (if b then 1 else 0))"
| "hash_key (YInt i) = Inr (KInt i)"
| "hash_key (YStr s) = Inr (KStr s)"
| "hash_key (YList l) = Inl (TypeError ''unhashable type: list'')"
| "hash_key (YMap m) = Inl (TypeError ''unhashable type: dict'')"

text \<open>\<open>k in v\<close>, \<open>v[k]\<close>, \<open>v.get(k)\<close> and truthiness for a string key \<open>k\<close>.\<close>

fun yaml_contains :: "string \<Rightarrow> yaml \<Rightarrow> exn + bool" where
  "yaml_contains k (YMap m) = Inr (map_of m k \<noteq> None)"
| "yaml_contains k (YStr s) = Inr (contains_str k s)"
| "yaml_contains k (YList l) = Inr (YStr k \<in> set l)"
| "yaml_contains k YNull = Inl (TypeError ''argument of type NoneType is not iterable'')"
| "yaml_contains k (YBool b) = Inl (TypeError ''argument of type bool is not iterable'')"
| "yaml_contains k (YInt i) = Inl (TypeError ''argument of type int is not iterable'')"

fun yaml_subscript :: "yaml \<Rightarrow> string \<Rightarrow> exn + yaml" where
  "yaml_subscript (YMap m) k = (case map_of m k of None \<Rightarrow> Inl (KeyError k) | Some v \<Rightarrow> Inr v)"
| "yaml_subscript (YStr s) k = Inl (TypeError ''string indices must be integers'')"
| "yaml_subscript (YList l) k = Inl (TypeError ''list indices must be integers or slices, not str'')"
| "yaml_subscript v k = Inl (TypeError ''object is not subscriptable'')"

fun yaml_get :: "yaml \<Rightarrow> string \<Rightarrow> yaml \<Rightarrow> exn + yaml" where
  "yaml_get (YMap m) k dflt = Inr (case map_of m k of None \<Rightarrow> dflt | Some v \<Rightarrow> v)"
| "yaml_get v k dflt = Inl (AttributeError ''object has no attribute get'')"

fun truthy :: "yaml \<Rightarrow> bool" where
  "truthy YNull = False"
| "truthy (YBool b) = b"
| "truthy (YInt i) = (i \<noteq> 0)"
| "truthy (YStr s) = (s \<noteq> [])"
| "truthy (YList l) = (l \<noteq> [])"
| "truthy (YMap m) = (m \<noteq> [])"

fun yaml_split :: "yaml \<Rightarrow> exn + string list" where
  "yaml_split (YStr s) = Inr (py_split s)"
| "yaml_split v = Inl (AttributeError ''object has no attribute split'')"

record SkillMetadata =
  name :: yaml
  description :: yaml
  license :: yaml
  compatibility :: yaml
  metadata :: yaml
  allowed_tools :: "string list option"
  path :: string

text \<open>The dictionary \<open>load\_skill\<close> returns; its key \<open>'metadata'\<close> is \<open>skill_metadata\<close>.\<close>

record skill_data =
  skill_metadata :: SkillMetadata
  frontmatter :: yaml
  body :: string
  full_content :: string

text \<open>
  One request to \<open>ollama.generate\<close>, and the events of a run in their order: the
  calls of \<open>activate\_skill\<close> and the generation requests, each tagged with the place
  in the sources that issues it.
\<close>

record generate_call =
  gen_model :: string
  gen_system :: "string option"
  gen_prompt :: string
  gen_temperature :: real
  gen_num_predict :: nat

datatype gen_site = AgentCall | SkillCall | SynthesisCall

datatype event = Activate string | Generate gen_site generate_call

fun is_generate :: "event \<Rightarrow> bool" where
  "is_generate (Generate site c) = True"
| "is_generate (Activate n) = False"

text \<open>
  The collaborators the sources call but do not define: the regular expression match of
  \<open>load\_skill\<close> (group 1 and the end of the match), PyYAML, \<open>json.dumps\<close>,
  \<open>str\<close> on a context value, and the model behind \<open>ollama.generate\<close>, whose answer may
  depend on the number of requests made before.
\<close>

record externals =
  re_match_frontmatter :: "string \<Rightarrow> (string \<times> nat) option"
  yaml_safe_load :: "string \<Rightarrow> exn + yaml"
  json_dumps :: "jval \<Rightarrow> exn + string"
  py_str :: "jval \<Rightarrow> string"
  ollama_generate :: "nat \<Rightarrow> generate_call \<Rightarrow> exn + string"

text \<open>
  The program state: the dictionaries that are shared by reference (an address is an
  index into \<open>heap\<close>), and the events so far.
\<close>

record pystate =
  heap :: "ctx list"
  trace :: "event list"

record SkillManager =
  skills_dir :: string
  skills :: "(pykey \<times> skill_data) list"
  ollama_model :: string

text \<open>A directory entry of \<open>skills\_dir\<close>: \<open>skill_md\<close> is \<open>None\<close> when it holds no
  SKILL.md, and otherwise what \<open>read\_text\<close> gives.\<close>

record dir_entry =
  entry_path :: string
  entry_is_dir :: bool
  skill_md :: "(exn + string) option"

text \<open>Sequencing of two steps of which the first may raise.\<close>

definition exn_bind :: "exn + 'a \<Rightarrow> ('a \<Rightarrow> exn + 'b) \<Rightarrow> exn + 'b" where
  "exn_bind m f = (case m of Inl e \<Rightarrow> Inl e | Inr x \<Rightarrow> f x)"

text \<open>
  The validation of \<open>load\_skill\<close>:
  \<open>'name' not in frontmatter or 'description' not in frontmatter\<close>.
\<close>

definition missing_fields :: "yaml \<Rightarrow> exn + bool" where
  "missing_fields fm =
     exn_bind (yaml_contains ''name'' fm) (\<lambda>has_name.
       if \<not> has_name then Inr True
       else exn_bind (yaml_contains ''description'' fm) (\<lambda>has_description.
         Inr (\<not> has_description)))"

text \<open>The \<open>allowed\_tools\<close> argument of the \<open>SkillMetadata\<close> constructor.\<close>

definition tools_of :: "yaml \<Rightarrow> exn + string list option" where
  "tools_of fm =
     exn_bind (yaml_get fm ''allowed_tools'' YNull) (\<lambda>t.
       if truthy t
       then exn_bind (yaml_get fm ''allowed_tools'' (YStr [])) (\<lambda>t'.
              exn_bind (yaml_split t') (\<lambda>ws. Inr (Some ws)))
       else Inr None)"

definition make_metadata :: "yaml \<Rightarrow> string \<Rightarrow> exn + SkillMetadata" where
  "make_metadata fm skill_file =
     exn_bind (yaml_subscript fm ''name'') (\<lambda>nm.
     exn_bind (yaml_subscript fm ''description'') (\<lambda>ds.
     exn_bind (yaml_get fm ''license'' YNull) (\<lambda>li.
     exn_bind (yaml_get fm ''compatibility'' YNull) (\<lambda>co.
     exn_bind (yaml_get fm ''metadata'' (YMap [])) (\<lambda>me.
     exn_bind (tools_of fm) (\<lambda>al.
       Inr \<lparr> name = nm, description = ds, license = li, compatibility = co,
             metadata = me, allowed_tools = al, path = skill_file \<rparr>))))))"

text \<open>The body of the \<open>try\<close> block of \<open>load\_skill\<close>.\<close>

definition parse_skill :: "externals \<Rightarrow> string \<Rightarrow> exn + string \<Rightarrow> exn + skill_data" where
  "parse_skill ext skill_file read_text =
     exn_bind read_text (\<lambda>content.
       case re_match_frontmatter ext content of
         None \<Rightarrow> Inl (ValueError (''No YAML frontmatter found in '' @ skill_file))
       | Some (group1, match_end) \<Rightarrow>
           exn_bind (yaml_safe_load ext group1) (\<lambda>fm.
           exn_bind (missing_fields fm) (\<lambda>missing.
             if missing then Inl (ValueError (''Missing required fields in '' @ skill_file))
             else exn_bind (make_metadata fm skill_file) (\<lambda>md.
               Inr \<lparr> skill_metadata = md, frontmatter = fm,
                     body = py_strip (drop match_end content),
                     full_content = content \<rparr>))))"

text \<open>\<open>load\_skill\<close>: any exception of the body is printed and turned into \<open>None\<close>.\<close>

definition load_skill :: "externals \<Rightarrow> string \<Rightarrow> exn + string \<Rightarrow> skill_data option" where
  "load_skill ext skill_file read_text =
     (case parse_skill ext skill_file read_text of Inl e \<Rightarrow> None | Inr sd \<Rightarrow> Some sd)"

text \<open>
  One round of the loop of \<open>discover\_skills\<close>. \<open>discover_try\<close> is the body of its
  \<open>try\<close> block: the assignment into the registry raises for an unhashable name. The
  handler prints and goes on with the registry as it was.
\<close>

definition discover_try ::
  "externals \<Rightarrow> (pykey \<times> skill_data) list \<Rightarrow> string \<Rightarrow> exn + string \<Rightarrow>
     exn + (pykey \<times> skill_data) list" where
  "discover_try ext reg skill_file read_text =
     (case load_skill ext skill_file read_text of
        None \<Rightarrow> Inr reg
      | Some sd \<Rightarrow>
         (case hash_key (name (skill_metadata sd)) of
            Inl e \<Rightarrow> Inl e
          | Inr k \<Rightarrow> Inr (AList.update k sd reg)))"

definition discover_entry ::
  "externals \<Rightarrow> (pykey \<times> skill_data) list \<Rightarrow> dir_entry \<Rightarrow> (pykey \<times> skill_data) list" where
  "discover_entry ext reg d =
     (if entry_is_dir d
      then (case skill_md d of
              None \<Rightarrow> reg
            | Some read_text \<Rightarrow>
               (case discover_try ext reg (entry_path d) read_text of
                  Inl e \<Rightarrow> reg
                | Inr reg' \<Rightarrow> reg'))
      else reg)"

text \<open>\<open>discover\_skills\<close>; \<open>listing\<close> is what \<open>iterdir\<close> yields, or the exception it
  raises (outside every handler).\<close>

definition discover_skills ::
  "externals \<Rightarrow> exn + dir_entry list \<Rightarrow> SkillManager \<Rightarrow> exn + SkillManager" where
  "discover_skills ext listing mgr =
     (case listing of
        Inl e \<Rightarrow> Inl e
      | Inr ds \<Rightarrow> Inr (mgr \<lparr> skills := foldl (discover_entry ext) (skills mgr) ds \<rparr>))"

text \<open>The constructor: an empty registry, the default model, then discovery.\<close>

definition init_manager ::
  "externals \<Rightarrow> string \<Rightarrow> exn + dir_entry list \<Rightarrow> exn + SkillManager" where
  "init_manager ext dir listing =
     discover_skills ext listing \<lparr> skills_dir = dir, skills = [], ollama_model = ''qwen3:1.7b'' \<rparr>"

text \<open>
  What a directory entry contributes to the registry: the key and the data discovery
  stores for it, or nothing.
\<close>

definition entry_skill :: "externals \<Rightarrow> dir_entry \<Rightarrow> (pykey \<times> skill_data) option" where
  "entry_skill ext d =
     (if entry_is_dir d
      then (case skill_md d of
              None \<Rightarrow> None
            | Some read_text \<Rightarrow>
               (case load_skill ext (entry_path d) read_text of
                  None \<Rightarrow> None
                | Some sd \<Rightarrow>
                   (case hash_key (name (skill_metadata sd)) of
                      Inl e \<Rightarrow> None
                    | Inr k \<Rightarrow> Some (k, sd))))
      else None)"



definition not_found_msg :: "string \<Rightarrow> string" where
  "not_found_msg skill_name = ''Skill '' @ quote @ skill_name @ quote @ '' not found.''"

definition skill_prompt :: "string \<Rightarrow> string \<Rightarrow> string \<Rightarrow> string" where
  "skill_prompt skill_name instructions context_json =
     ''You are executing the skill: '' @ skill_name @ nl @ nl @
     ''SKILL INSTRUCTIONS:'' @ nl @ instructions @ nl @ nl @
     ''CONTEXT DATA:'' @ nl @ context_json @ nl @ nl @
     ''TASK: Based on the skill instructions above, process the context data and provide the result.'' @ nl @
     ''        '' @ nl @
     ''RESULT:''"

definition n_generated :: "pystate \<Rightarrow> nat" where
  "n_generated s = length (filter is_generate (trace s))"

text \<open>
  \<open>activate\_skill\<close>. The prompt is built, and the context serialised, before the
  \<open>try\<close> block, so an exception of \<open>json.dumps\<close> leaves the function; an exception of
  the generation request becomes the returned text.
\<close>

definition activate_skill ::
  "externals \<Rightarrow> SkillManager \<Rightarrow> string \<Rightarrow> ctx \<Rightarrow> pystate \<Rightarrow> (exn + string) \<times> pystate" where
  "activate_skill ext mgr skill_name context_d s =
     (let s0 = s \<lparr> trace := trace s @ [Activate skill_name] \<rparr> in
      case map_of (skills mgr) (KStr skill_name) of
        None \<Rightarrow> (Inr (not_found_msg skill_name), s0)
      | Some sd \<Rightarrow>
         (case json_dumps ext (JDict context_d) of
            Inl e \<Rightarrow> (Inl e, s0)
          | Inr context_json \<Rightarrow>
             (let call = \<lparr> gen_model = ollama_model mgr, gen_system = None,
                           gen_prompt = skill_prompt skill_name (body sd) context_json,
                           gen_temperature = 3 / 10, gen_num_predict = 1000 \<rparr>;
                  s1 = s0 \<lparr> trace := trace s0 @ [Generate SkillCall call] \<rparr>
              in case ollama_generate ext (n_generated s0) call of
                   Inl e \<Rightarrow> (Inr (''Error executing skill: '' @ exn_str e), s1)
                 | Inr response \<Rightarrow> (Inr response, s1))))"

text \<open>
  \<open>execute\_workflow\<close>. \<open>initial_context\<close> is the address of the caller's dictionary;
  \<open>dict_copy\<close> allocates the copy and \<open>dict_set\<close> is the assignment \<open>d[k] = v\<close> on the
  object at an address.
\<close>

definition dict_copy :: "nat \<Rightarrow> pystate \<Rightarrow> nat \<times> pystate" where
  "dict_copy a s = (length (heap s), s \<lparr> heap := heap s @ [heap s ! a] \<rparr>)"

definition dict_set :: "nat \<Rightarrow> string \<Rightarrow> jval \<Rightarrow> pystate \<Rightarrow> pystate" where
  "dict_set a k v s = s \<lparr> heap := (heap s) [a := AList.update k v (heap s ! a)] \<rparr>"

definition step_key :: "nat \<Rightarrow> string \<Rightarrow> string" where
  "step_key i skill_name = ''step_'' @ show_nat (i + 1) @ ''_'' @ skill_name"

definition workflow_step ::
  "externals \<Rightarrow> SkillManager \<Rightarrow> nat \<Rightarrow> nat \<Rightarrow> string \<Rightarrow> pystate \<Rightarrow> (exn + unit) \<times> pystate" where
  "workflow_step ext mgr c i skill_name s =
     (case activate_skill ext mgr skill_name (heap s ! c) s of
        (Inl e, s1) \<Rightarrow> (Inl e, s1)
      | (Inr result, s1) \<Rightarrow>
          (Inr (),
           dict_set c ''previous_result'' (JStr result)
             (dict_set c (step_key i skill_name) (JStr result) s1)))"

fun workflow_loop ::
  "externals \<Rightarrow> SkillManager \<Rightarrow> nat \<Rightarrow> nat \<Rightarrow> string list \<Rightarrow> pystate \<Rightarrow> (exn + unit) \<times> pystate" where
  "workflow_loop ext mgr c i [] s = (Inr (), s)"
| "workflow_loop ext mgr c i (skill_name # rest) s =
     (case workflow_step ext mgr c i skill_name s of
        (Inl e, s1) \<Rightarrow> (Inl e, s1)
      | (Inr u, s1) \<Rightarrow> workflow_loop ext mgr c (i + 1) rest s1)"

definition execute_workflow ::
  "externals \<Rightarrow> SkillManager \<Rightarrow> string list \<Rightarrow> nat \<Rightarrow> pystate \<Rightarrow> (exn + nat) \<times> pystate" where
  "execute_workflow ext mgr workflow initial_context s =
     (case dict_copy initial_context s of
        (c, s0) \<Rightarrow>
          (case workflow_loop ext mgr c 0 workflow s0 of
             (Inl e, s') \<Rightarrow> (Inl e, s')
           | (Inr u, s') \<Rightarrow> (Inr c, s')))"

section \<open>agent\_core.py\<close>

record DocumentQAAgent =
  skill_manager :: SkillManager
  agent_model :: string

definition marker :: string where
  "marker = ''[USE_SKILL:''"

text \<open>
  \<open>line.split('[USE\_SKILL:')[1].split(']')[0].strip()\<close>: the text between the first
  marker of the line and the next \<open>]\<close>. An index out of range raises IndexError.
\<close>

definition requested_skill :: "string \<Rightarrow> exn + string" where
  "requested_skill line =
     (case py_split_sep line marker of
        a # b # rest \<Rightarrow>
          (case py_split_sep b '']'' of
             x # xs \<Rightarrow> Inr (py_strip x)
           | [] \<Rightarrow> Inl (OtherError ''list index out of range''))
      | _ \<Rightarrow> Inl (OtherError ''list index out of range''))"

text \<open>The loop over the lines of the response that fills \<open>skill\_requests\<close>.\<close>

fun parse_requests :: "string list \<Rightarrow> exn + string list" where
  "parse_requests [] = Inr []"
| "parse_requests (line # lines) =
     (if contains_str marker line
      then exn_bind (requested_skill line) (\<lambda>skill_name.
             exn_bind (parse_requests lines) (\<lambda>more. Inr (skill_name # more)))
      else parse_requests lines)"

definition skill_requests_of :: "string \<Rightarrow> exn + string list" where
  "skill_requests_of agent_response = parse_requests (py_split_sep agent_response nl)"

text \<open>
  The loop that executes the requested skills. \<open>workflow\_context\<close> and \<open>results\<close> are
  local to the call, so they are passed as values.
\<close>

fun chain_loop ::
  "externals \<Rightarrow> SkillManager \<Rightarrow> ctx \<Rightarrow> jval list \<Rightarrow> string list \<Rightarrow> pystate \<Rightarrow>
     (exn + ctx \<times> jval list) \<times> pystate" where
  "chain_loop ext mgr workflow_context results [] s = (Inr (workflow_context, results), s)"
| "chain_loop ext mgr workflow_context results (skill_name # rest) s =
     (let skill_context =
            [(''user_query'', dict_get workflow_context ''user_query'' (JStr [])),
             (''document_content'', dict_get workflow_context ''document_text'' (JStr [])),
             (''previous_results'', JList results),
             (''workflow_step'', JInt (int (length results) + 1))]
      in case activate_skill ext mgr skill_name skill_context s of
           (Inl e, s1) \<Rightarrow> (Inl e, s1)
         | (Inr result, s1) \<Rightarrow>
             chain_loop ext mgr
               (AList.update (''result_'' @ skill_name) (JStr result) workflow_context)
               (results @ [JDict [(''skill'', JStr skill_name), (''result'', JStr result)]])
               rest s1)"

definition str_of :: "externals \<Rightarrow> jval \<Rightarrow> string" where
  "str_of ext v = (case v of JStr s \<Rightarrow> s | _ \<Rightarrow> py_str ext v)"

definition final_prompt :: "string \<Rightarrow> string \<Rightarrow> string" where
  "final_prompt results_json user_query =
     ''SKILL EXECUTION RESULTS:'' @ nl @ results_json @ nl @ nl @
     ''ORIGINAL USER REQUEST: '' @ user_query @ nl @ nl @
     ''TASK: Synthesize the skill execution results into a clear, comprehensive answer for the user.'' @ nl @
     ''Focus on accuracy, completeness, and relevance to the original question.'' @ nl @ nl @
     ''FINAL ANSWER:''"

text \<open>The fallback of the synthesis: each skill with the first 500 characters of its result.\<close>

fun combined :: "jval list \<Rightarrow> string" where
  "combined [] = []"
| "combined (JDict [(k1, JStr skill), (k2, JStr result)] # rest) =
     ''**'' @ skill @ ''**: '' @ take 500 result @ ''...'' @ nl @ nl @ combined rest"
| "combined (v # rest) = combined rest"

definition execute_skill_chain ::
  "externals \<Rightarrow> DocumentQAAgent \<Rightarrow> string \<Rightarrow> ctx option \<Rightarrow> pystate \<Rightarrow> (exn + string) \<times> pystate" where
  "execute_skill_chain ext self agent_response context_d s =
     (case skill_requests_of agent_response of
        Inl e \<Rightarrow> (Inl e, s)
      | Inr skill_requests \<Rightarrow>
         if skill_requests = [] then (Inr agent_response, s)
         else
          (let workflow_context = (case context_d of None \<Rightarrow> [] | Some d \<Rightarrow> d) in
           case chain_loop ext (skill_manager self) workflow_context [] skill_requests s of
             (Inl e, s1) \<Rightarrow> (Inl e, s1)
           | (Inr (wc, results), s1) \<Rightarrow>
              (case json_dumps ext (JList results) of
                 Inl e \<Rightarrow> (Inl e, s1)
               | Inr results_json \<Rightarrow>
                  (let call = \<lparr> gen_model = agent_model self, gen_system = None,
                                gen_prompt = final_prompt results_json
                                  (str_of ext (dict_get wc ''user_query'' (JStr ''Unknown''))),
                                gen_temperature = 2 / 10, gen_num_predict = 1500 \<rparr>;
                       s2 = s1 \<lparr> trace := trace s1 @ [Generate SynthesisCall call] \<rparr>
                   in case ollama_generate ext (n_generated s1) call of
                        Inl e \<Rightarrow>
                          (Inr (''Skill execution completed. Results:'' @ nl @ nl @ combined results), s2)
                      | Inr final_response \<Rightarrow> (Inr final_response, s2)))))"

text \<open>
  \<open>process\_with\_skills\<close>; \<open>system_prompt\<close> is the text \<open>get\_system\_prompt\<close> renders.
  The document excerpt is built before the \<open>try\<close> block.
\<close>

definition document_excerpt :: "externals \<Rightarrow> jval \<Rightarrow> exn + string" where
  "document_excerpt ext v =
     (case v of
        JStr t \<Rightarrow> Inr (take 5000 t)
      | JList l \<Rightarrow> Inr (py_str ext (JList (take 5000 l)))
      | _ \<Rightarrow> Inl (TypeError ''object is not subscriptable''))"

definition user_prompt :: "externals \<Rightarrow> string \<Rightarrow> ctx option \<Rightarrow> exn + string" where
  "user_prompt ext user_input context_d =
     (let head = ''USER REQUEST: '' @ user_input @ nl @ nl in
      case context_d of
        None \<Rightarrow> Inr head
      | Some d \<Rightarrow>
         (case map_of d ''document_text'' of
            None \<Rightarrow> Inr head
          | Some v \<Rightarrow>
              exn_bind (document_excerpt ext v) (\<lambda>t.
                Inr (head @ ''DOCUMENT CONTEXT:'' @ nl @ t @ ''...'' @ nl))))"

definition process_with_skills ::
  "externals \<Rightarrow> DocumentQAAgent \<Rightarrow> string \<Rightarrow> string \<Rightarrow> ctx option \<Rightarrow> pystate \<Rightarrow>
     (exn + string) \<times> pystate" where
  "process_with_skills ext self system_prompt user_input context_d s =
     (case user_prompt ext user_input context_d of
        Inl e \<Rightarrow> (Inl e, s)
      | Inr prompt \<Rightarrow>
         (let call = \<lparr> gen_model = agent_model self, gen_system = Some system_prompt,
                       gen_prompt = prompt, gen_temperature = 3 / 10, gen_num_predict = 2000 \<rparr>;
              s1 = s \<lparr> trace := trace s @ [Generate AgentCall call] \<rparr>
          in case ollama_generate ext (n_generated s) call of
               Inl e \<Rightarrow> (Inr (''Error: '' @ exn_str e), s1)
             | Inr agent_response \<Rightarrow>
                 if contains_str marker agent_response
                 then (case execute_skill_chain ext self agent_response context_d s1 of
                         (Inl e, s2) \<Rightarrow> (Inr (''Error: '' @ exn_str e), s2)
                       | (Inr answer, s2) \<Rightarrow> (Inr answer, s2))
                 else (Inr agent_response, s1)))"

section \<open>chunk\_document.py\<close>

text \<open>NLTK's tokenizers are taken as they are: functions from a text to its units.\<close>

record nltk =
  word_tokenize :: "string \<Rightarrow> string list"
  sent_tokenize :: "string \<Rightarrow> string list"

record DocumentChunker =
  chunk_size :: int
  overlap :: int

record token_chunk =
  chunk_text :: string
  start_word :: int
  end_word :: int
  chunk_id :: int

record sentence_chunk =
  sentence_text :: string
  start_sentence :: int
  end_sentence :: int
  sentence_chunk_id :: int

text \<open>
  The \<open>while\<close> loop of \<open>chunk\_by\_tokens\<close>. It need not end, so the result is an
  option: \<open>None\<close> is the loop that runs forever.
\<close>

definition next_start :: "DocumentChunker \<Rightarrow> int \<Rightarrow> int" where
  "next_start self start = (start + chunk_size self) - overlap self"

definition make_chunk :: "string list \<Rightarrow> DocumentChunker \<Rightarrow> int \<Rightarrow> int \<Rightarrow> token_chunk" where
  "make_chunk words self start n =
     \<lparr> chunk_text =
         py_join '' '' (py_slice words (max 0 (start - overlap self)) (start + chunk_size self)),
       start_word = max 0 (start - overlap self),
       end_word = start + chunk_size self,
       chunk_id = n \<rparr>"

partial_function (option) token_loop ::
  "string list \<Rightarrow> DocumentChunker \<Rightarrow> int \<Rightarrow> token_chunk list \<Rightarrow> token_chunk list option" where
  "token_loop words self start chunks =
     (if start < int (length words)
      then token_loop words self (next_start self start)
             (chunks @ [make_chunk words self start (int (length chunks))])
      else Some chunks)"

definition chunk_by_tokens :: "nltk \<Rightarrow> DocumentChunker \<Rightarrow> string \<Rightarrow> token_chunk list option" where
  "chunk_by_tokens tk self text_in = token_loop (word_tokenize tk text_in) self 0 []"

text \<open>The inner loop of \<open>chunk\_by\_sentences\<close> over \<open>reversed(current\_chunk)\<close>.\<close>

fun keep_overlap ::
  "nltk \<Rightarrow> DocumentChunker \<Rightarrow> string list \<Rightarrow> string list \<Rightarrow> int \<Rightarrow> string list \<times> int" where
  "keep_overlap tk self [] overlap_sentences overlap_length = (overlap_sentences, overlap_length)"
| "keep_overlap tk self (s # ss) overlap_sentences overlap_length =
     (if overlap_length + int (length (word_tokenize tk s)) \<le> overlap self
      then keep_overlap tk self ss (s # overlap_sentences)
             (overlap_length + int (length (word_tokenize tk s)))
      else (overlap_sentences, overlap_length))"

text \<open>One round of the \<open>for\<close> loop: the state is \<open>(chunks, current_chunk, current_length)\<close>.\<close>

definition sentence_step ::
  "nltk \<Rightarrow> DocumentChunker \<Rightarrow> sentence_chunk list \<times> string list \<times> int \<Rightarrow> nat \<times> string \<Rightarrow>
     sentence_chunk list \<times> string list \<times> int" where
  "sentence_step tk self st p =
     (case (st, p) of
        ((chunks, current_chunk, current_length), (i, sentence)) \<Rightarrow>
          (let sentence_tokens = int (length (word_tokenize tk sentence)) in
           if current_length + sentence_tokens > chunk_size self \<and> current_chunk \<noteq> []
           then
             (case keep_overlap tk self (rev current_chunk) [] 0 of
                (overlap_sentences, overlap_length) \<Rightarrow>
                  (chunks @
                     [\<lparr> sentence_text = py_join '' '' current_chunk,
                         start_sentence = int i - int (length current_chunk),
                         end_sentence = int i - 1,
                         sentence_chunk_id = int (length chunks) \<rparr>],
                   overlap_sentences @ [sentence],
                   overlap_length + sentence_tokens))
           else (chunks, current_chunk @ [sentence], current_length + sentence_tokens)))"

definition chunk_by_sentences :: "nltk \<Rightarrow> DocumentChunker \<Rightarrow> string \<Rightarrow> sentence_chunk list" where
  "chunk_by_sentences tk self text_in =
     (let sentences = sent_tokenize tk text_in in
      case foldl (sentence_step tk self) ([], [], 0) (enumerate 0 sentences) of
        (chunks, current_chunk, current_length) \<Rightarrow>
          if current_chunk \<noteq> []
          then chunks @
                 [\<lparr> sentence_text = py_join '' '' current_chunk,
                     start_sentence = int (length sentences) - int (length current_chunk),
                     end_sentence = int (length sentences) - 1,
                     sentence_chunk_id = int (length chunks) \<rparr>]
          else chunks)"

section \<open>semantic\_search.py\<close>

text \<open>
  The sentence-transformer model and numpy are taken as they are. \<open>encode\<close> gives the
  (normalised) embedding of a text, over the reals. \<open>argsort\<close> is \<open>np.argsort\<close>, whose
  default sort is not stable: only its contract is known, \<open>argsort_ok\<close>, that the result
  lists every position once, by ascending value.
\<close>

record numpy_model =
  encode :: "string \<Rightarrow> real list"
  argsort :: "real list \<Rightarrow> nat list"

definition argsort_ok :: "real list \<Rightarrow> nat list \<Rightarrow> bool" where
  "argsort_ok xs idxs = (mset idxs = mset [0..<length xs] \<and> sorted (map (\<lambda>i. xs ! i) idxs))"

text \<open>The argsort that keeps equal values in the order of their positions.\<close>

definition stable_argsort :: "real list \<Rightarrow> nat list" where
  "stable_argsort xs = sort_key (\<lambda>i. xs ! i) [0..<length xs]"

record SemanticSearch =
  documents :: "string list"
  embeddings :: "real list list option"

record search_result =
  index :: nat
  doc_text :: string
  score :: real
  length_chars :: nat
  length_words :: nat

record hybrid_result =
  hybrid_index :: nat
  hybrid_text :: string
  hybrid_score :: real
  semantic_score :: real
  keyword_score :: real

definition new_search :: SemanticSearch where
  "new_search = \<lparr> documents = [], embeddings = None \<rparr>"

definition index_documents :: "numpy_model \<Rightarrow> SemanticSearch \<Rightarrow> string list \<Rightarrow> SemanticSearch" where
  "index_documents np self docs =
     self \<lparr> documents := docs, embeddings := Some (map (encode np) docs) \<rparr>"

definition dot :: "real list \<Rightarrow> real list \<Rightarrow> real" where
  "dot u v = sum_list (map2 (*) u v)"

definition similarities :: "numpy_model \<Rightarrow> real list list \<Rightarrow> string \<Rightarrow> real list" where
  "similarities np emb query = map (\<lambda>e. dot e (encode np query)) emb"

definition search ::
  "numpy_model \<Rightarrow> SemanticSearch \<Rightarrow> string \<Rightarrow> int \<Rightarrow> real \<Rightarrow> exn + search_result list" where
  "search np self query top_k threshold =
     (case embeddings self of
        None \<Rightarrow> Inl (ValueError ''No documents indexed. Call index_documents first.'')
      | Some emb \<Rightarrow>
         (let sims = similarities np emb query;
              top_indices = py_slice (rev (argsort np sims)) 0 top_k
          in Inr (map (\<lambda>idx. \<lparr> index = idx,
                                doc_text = documents self ! idx,
                                score = sims ! idx,
                                length_chars = length (documents self ! idx),
                                length_words = length (py_split (documents self ! idx)) \<rparr>)
                      (filter (\<lambda>idx. sims ! idx \<ge> threshold) top_indices))))"

text \<open>
  The lexical score of \<open>hybrid\_search\<close>: the share of the distinct query terms that
  occur in the document.
\<close>

definition terms_of :: "string \<Rightarrow> string list" where
  "terms_of s = remdups (py_split (py_lower s))"

definition lexical_score :: "string \<Rightarrow> string \<Rightarrow> real" where
  "lexical_score query doc =
     (let query_terms = terms_of query;
          common_terms = filter (\<lambda>t. t \<in> set (terms_of doc)) query_terms
      in if query_terms \<noteq> [] then real (length common_terms) / real (length query_terms) else 0)"

definition max_or_one :: "real list \<Rightarrow> real" where
  "max_or_one xs = (if xs \<noteq> [] then Max (set xs) else 1)"

definition normalised :: "real \<Rightarrow> real \<Rightarrow> real" where
  "normalised x mx = (if mx > 0 then x / mx else 0)"

definition combined_score ::
  "real \<Rightarrow> (nat \<times> real) list \<Rightarrow> real list \<Rightarrow> nat \<Rightarrow> real" where
  "combined_score alpha semantic_scores keyword_scores i =
     alpha * normalised (case map_of semantic_scores i of None \<Rightarrow> 0 | Some x \<Rightarrow> x)
                        (max_or_one (map snd semantic_scores))
     + (1 - alpha) * normalised (keyword_scores ! i) (max_or_one keyword_scores)"

definition hybrid_search ::
  "numpy_model \<Rightarrow> SemanticSearch \<Rightarrow> string \<Rightarrow> string list \<Rightarrow> int \<Rightarrow> real \<Rightarrow>
     exn + hybrid_result list" where
  "hybrid_search np self query docs top_k alpha =
     exn_bind (search np self query (int (length docs)) (3 / 10)) (\<lambda>semantic_results.
       let semantic_scores = map (\<lambda>r. (index r, score r)) semantic_results;
           keyword_scores = map (lexical_score query) docs;
           combined_scores =
             map (\<lambda>i. (i, combined_score alpha semantic_scores keyword_scores i)) [0..<length docs];
           top_indices = py_slice (sort_key (\<lambda>x. - snd x) combined_scores) 0 top_k
       in Inr (map (\<lambda>x. \<lparr> hybrid_index = fst x,
                            hybrid_text = docs ! fst x,
                            hybrid_score = snd x,
                            semantic_score =
                              (case map_of semantic_scores (fst x) of None \<Rightarrow> 0 | Some v \<Rightarrow> v),
                            keyword_score = keyword_scores ! fst x \<rparr>)
                   (filter (\<lambda>x. snd x > 0) top_indices)))"

section \<open>Example inputs\<close>

text \<open>Concrete collaborators and inputs, on which the theorems below are instantiated.\<close>

definition example_externals :: externals where
  "example_externals =
     \<lparr> re_match_frontmatter =
         (\<lambda>content. if take 3 content = ''---'' then Some (drop 3 content, length content) else None),
       yaml_safe_load =
         (\<lambda>g. if g = [] then Inr YNull
              else Inr (YMap [(''name'', YStr ''dup''), (''description'', YStr g)])),
       json_dumps = (\<lambda>v. Inr ''{}''),
       py_str = (\<lambda>v. ''?''),
       ollama_generate = (\<lambda>n c. Inr (''answer '' @ show_nat n)) \<rparr>"

definition empty_manager :: SkillManager where
  "empty_manager = \<lparr> skills_dir = ''skills'', skills = [], ollama_model = ''qwen3:1.7b'' \<rparr>"

definition dir_one :: dir_entry where
  "dir_one = \<lparr> entry_path = ''skills/one'', entry_is_dir = True, skill_md = Some (Inr ''---first'') \<rparr>"

definition dir_two :: dir_entry where
  "dir_two = \<lparr> entry_path = ''skills/two'', entry_is_dir = True, skill_md = Some (Inr ''---second'') \<rparr>"

definition dir_bad :: dir_entry where
  "dir_bad = \<lparr> entry_path = ''skills/bad'', entry_is_dir = True, skill_md = Some (Inr ''no header'') \<rparr>"


definition skill_two :: skill_data where
  "skill_two =
     \<lparr> skill_metadata =
         \<lparr> name = YStr ''dup'', description = YStr ''second'', license = YNull,
           compatibility = YNull, metadata = YMap [], allowed_tools = None,
           path = ''skills/two'' \<rparr>,
       frontmatter = YMap [(''name'', YStr ''dup''), (''description'', YStr ''second'')],
       body = [],
       full_content = ''---second'' \<rparr>"

definition example_nltk :: nltk where
  "example_nltk = \<lparr> word_tokenize = py_split, sent_tokenize = (\<lambda>t. py_split_sep t ''|'') \<rparr>"

text \<open>The token ranges \<open>[start_word, end_word)\<close> of a list of chunks.\<close>

definition word_ranges :: "token_chunk list \<Rightarrow> (int \<times> int) list" where
  "word_ranges cs = map (\<lambda>c. (start_word c, end_word c)) cs"

text \<open>
  A chunk made of whole sentences: its text is the sentences \<open>start_sentence\<close> to
  \<open>end_sentence\<close> of the list, joined by single spaces.
\<close>

definition whole_sentences :: "string list \<Rightarrow> sentence_chunk \<Rightarrow> bool" where
  "whole_sentences sentences c =
     (0 \<le> start_sentence c \<and> start_sentence c \<le> end_sentence c
      \<and> end_sentence c < int (length sentences)
      \<and> sentence_text c =
          py_join '' '' (py_slice sentences (start_sentence c) (end_sentence c + 1)))"

text \<open>The skill names of the calls of \<open>activate\_skill\<close> in a run, and the places of its
  generation requests, in their order.\<close>

fun activations :: "event list \<Rightarrow> string list" where
  "activations [] = []"
| "activations (Activate n # es) = n # activations es"
| "activations (Generate site c # es) = activations es"

fun generations :: "event list \<Rightarrow> gen_site list" where
  "generations [] = []"
| "generations (Activate n # es) = generations es"
| "generations (Generate site c # es) = site # generations es"

definition example_agent :: DocumentQAAgent where
  "example_agent = \<lparr> skill_manager = empty_manager, agent_model = ''qwen3:1.7b'' \<rparr>"

text \<open>A response with one marker on each of its two lines.\<close>

definition two_line_response :: string where
  "two_line_response = ''[USE_SKILL:extract]'' @ nl @ ''[USE_SKILL:summarize]''"

text \<open>
  An embedding model with two unit vectors, and numpy with the argsort that keeps equal
  values in the order of their positions.
\<close>

definition example_numpy :: numpy_model where
  "example_numpy =
     \<lparr> encode = (\<lambda>s. if s = ''dog ran'' then [4 / 5, 3 / 5] else [1, 0]),
       argsort = stable_argsort \<rparr>"

definition start_state :: pystate where
  "start_state = \<lparr> heap = [[(''user_query'', JStr ''q'')]], trace = [] \<rparr>"

text \<open>The keys \<open>step_<i>_<skill>\<close> under which the steps of a workflow store their results.\<close>

definition step_keys :: "nat \<Rightarrow> string list \<Rightarrow> string set" where
  "step_keys i workflow = (\<lambda>p. step_key (fst p) (snd p)) ` set (enumerate i workflow)"

text \<open>
  The state \<open>execute\_workflow\<close> has reached when the steps \<open>pre\<close> of the workflow are
  done: the copy is made (at the next free address) and the loop has run over \<open>pre\<close>.
\<close>

definition state_before ::
  "externals \<Rightarrow> SkillManager \<Rightarrow> string list \<Rightarrow> nat \<Rightarrow> pystate \<Rightarrow> pystate" where
  "state_before ext mgr pre initial_context s =
     snd (workflow_loop ext mgr (length (heap s)) 0 pre (snd (dict_copy initial_context s)))"

text \<open>The state after the first step of the workflow \<open>a, b\<close> run on \<open>start_state\<close>.\<close>

definition after_first_step :: pystate where
  "after_first_step =
     snd (workflow_step example_externals empty_manager 1 0 ''a'' (snd (dict_copy 0 start_state)))"

section \<open>The skill registry\<close>

lemma discover_entry_eq:
  "discover_entry ext reg d =
     (case entry_skill ext d of None \<Rightarrow> reg | Some (k, sd) \<Rightarrow> AList.update k sd reg)"
  by (simp add: discover_entry_def entry_skill_def discover_try_def
           split: option.splits sum.splits)

lemma discover_other_key:
  assumes "\<forall>d\<in>set ds. \<forall>sd. entry_skill ext d \<noteq> Some (k, sd)"
  shows "map_of (foldl (discover_entry ext) reg ds) k = map_of reg k"
  using assms
proof (induction ds arbitrary: reg)
  case Nil
  then show ?case by simp
next
  case (Cons d ds)
  have "map_of (discover_entry ext reg d) k = map_of reg k"
  proof (cases "entry_skill ext d")
    case None
    then show ?thesis by (simp add: discover_entry_eq)
  next
    case (Some p)
    obtain k' sd' where p: "p = (k', sd')" by (cases p)
    with Some Cons.prems have "k' \<noteq> k" by auto
    with Some p show ?thesis by (simp add: discover_entry_eq update_conv')
  qed
  with Cons show ?case by simp
qed

lemma discover_last_wins:
  assumes "entry_skill ext d = Some (k, sd)"
    and "\<forall>d'\<in>set post. \<forall>sd'. entry_skill ext d' \<noteq> Some (k, sd')"
  shows "map_of (foldl (discover_entry ext) reg (pre @ d # post)) k = Some sd"
proof -
  have "map_of (foldl (discover_entry ext) reg (pre @ d # post)) k
      = map_of (discover_entry ext (foldl (discover_entry ext) reg pre) d) k"
    using assms(2) by (simp add: discover_other_key)
  also have "\<dots> = Some sd"
    using assms(1) by (simp add: discover_entry_eq update_conv')
  finally show ?thesis .
qed

lemma discover_distinct:
  "distinct (map fst reg) \<Longrightarrow> distinct (map fst (foldl (discover_entry ext) reg ds))"
proof (induction ds arbitrary: reg)
  case Nil
  then show ?case by simp
next
  case (Cons d ds)
  have "distinct (map fst (discover_entry ext reg d))"
    using Cons.prems
    by (cases "entry_skill ext d") (auto simp add: discover_entry_eq distinct_update)
  then show ?case using Cons.IH by simp
qed

lemma distinct_single_entry:
  "distinct (map fst reg) \<Longrightarrow> map_of reg k = Some v \<Longrightarrow> filter (\<lambda>p. fst p = k) reg = [(k, v)]"
proof (induction reg)
  case Nil
  then show ?case by simp
next
  case (Cons p reg)
  show ?case
  proof (cases "fst p = k")
    case True
    with Cons.prems have "p = (k, v)" by (cases p) auto
    moreover from True Cons.prems have "filter (\<lambda>q. fst q = k) reg = []"
      by (auto simp add: filter_empty_conv image_iff)
    ultimately show ?thesis by simp
  next
    case False
    with Cons show ?thesis by (cases p) auto
  qed
qed

lemma entry_skill_two: "entry_skill example_externals dir_two = Some (KStr ''dup'', skill_two)"
  by (simp add: entry_skill_def dir_two_def example_externals_def load_skill_def parse_skill_def
        exn_bind_def missing_fields_def make_metadata_def tools_of_def skill_two_def py_strip_def)

lemma entry_skill_bad: "entry_skill example_externals dir_bad = None"
  by (simp add: entry_skill_def dir_bad_def example_externals_def load_skill_def parse_skill_def
        exn_bind_def)

text \<open>
  C7. When a directory declares a skill under a name and no directory processed after it
  declares the same name, the registry built by the constructor maps the name to the
  data of that directory, whatever the directories before it declared; the registry
  holds exactly one entry for the name, and no name twice.
\<close>

theorem later_skill_retained:
  assumes "entry_skill ext d = Some (k, sd)"
    and "\<forall>d'\<in>set post. \<forall>sd'. entry_skill ext d' \<noteq> Some (k, sd')"
  shows "\<exists>mgr. init_manager ext dir (Inr (pre @ d # post)) = Inr mgr
           \<and> map_of (skills mgr) k = Some sd
           \<and> filter (\<lambda>p. fst p = k) (skills mgr) = [(k, sd)]
           \<and> distinct (map fst (skills mgr))"
proof -
  let ?reg = "foldl (discover_entry ext) [] (pre @ d # post)"
  have l: "map_of ?reg k = Some sd"
    using assms by (rule discover_last_wins)
  have di: "distinct (map fst ?reg)"
    by (rule discover_distinct) simp
  from di l have "filter (\<lambda>p. fst p = k) ?reg = [(k, sd)]"
    by (rule distinct_single_entry)
  with l di show ?thesis
    by (simp add: init_manager_def discover_skills_def)
qed

text \<open>
  Two directories declare the name \<open>dup\<close>; the data of the second is the one retained.
\<close>

theorem later_skill_retained_witness:
  "\<exists>mgr. init_manager example_externals ''skills'' (Inr ([dir_one] @ dir_two # [dir_bad])) = Inr mgr
     \<and> map_of (skills mgr) (KStr ''dup'') = Some skill_two
     \<and> filter (\<lambda>p. fst p = KStr ''dup'') (skills mgr) = [(KStr ''dup'', skill_two)]
     \<and> distinct (map fst (skills mgr))"
  by (rule later_skill_retained) (simp_all add: entry_skill_two entry_skill_bad)







section \<open>Skill activation and workflows\<close>

text \<open>
  C9. For a skill name that is not a key of the registry, and any context,
  \<open>activate\_skill\<close> returns (does not raise) the text \<open>Skill '<name>' not found.\<close>,
  issues no generation request and leaves every dictionary as it was.
\<close>

theorem unknown_skill_sentinel:
  assumes "KStr skill_name \<notin> fst ` set (skills mgr)"
  shows "fst (activate_skill ext mgr skill_name context_d s) =
           Inr (''Skill '' @ [CHR 0x27] @ skill_name @ [CHR 0x27] @ '' not found.'')
       \<and> filter is_generate (trace (snd (activate_skill ext mgr skill_name context_d s))) =
           filter is_generate (trace s)
       \<and> heap (snd (activate_skill ext mgr skill_name context_d s)) = heap s"
proof -
  from assms have "map_of (skills mgr) (KStr skill_name) = None"
    by (simp add: map_of_eq_None_iff)
  then show ?thesis
    by (simp add: activate_skill_def not_found_msg_def quote_def)
qed

theorem unknown_skill_sentinel_witness:
  "fst (activate_skill example_externals empty_manager ''summarize'' [] start_state) =
           Inr (''Skill '' @ [CHR 0x27] @ ''summarize'' @ [CHR 0x27] @ '' not found.'')
       \<and> filter is_generate (trace (snd (activate_skill example_externals empty_manager ''summarize'' [] start_state))) =
           filter is_generate (trace start_state)
       \<and> heap (snd (activate_skill example_externals empty_manager ''summarize'' [] start_state)) = heap start_state"
  by (rule unknown_skill_sentinel) (simp add: empty_manager_def)

lemma activate_heap: "heap (snd (activate_skill ext mgr n cd s)) = heap s"
  by (simp add: activate_skill_def Let_def split: option.splits sum.splits)

lemma step_heap:
  assumes "c < length (heap s)"
  shows "length (heap (snd (workflow_step ext mgr c i n s))) = length (heap s)
       \<and> (\<forall>a. a \<noteq> c \<longrightarrow> heap (snd (workflow_step ext mgr c i n s)) ! a = heap s ! a)
       \<and> (\<forall>k. k \<noteq> ''previous_result'' \<and> k \<noteq> step_key i n \<longrightarrow>
             map_of (heap (snd (workflow_step ext mgr c i n s)) ! c) k = map_of (heap s ! c) k)"
proof (cases "activate_skill ext mgr n (heap s ! c) s")
  case (Pair r s1)
  have h: "heap s1 = heap s" using activate_heap [of ext mgr n "heap s ! c" s] Pair by simp
  show ?thesis
  proof (cases r)
    case (Inl e)
    with Pair h show ?thesis by (simp add: workflow_step_def)
  next
    case (Inr res)
    with Pair h assms show ?thesis
      by (simp add: workflow_step_def dict_set_def update_conv')
  qed
qed

lemma step_stores:
  assumes "c < length (heap s)"
    and "fst (activate_skill ext mgr n (heap s ! c) s) = Inr r"
  shows "map_of (heap (snd (workflow_step ext mgr c i n s)) ! c) (step_key i n) = Some (JStr r)
       \<and> map_of (heap (snd (workflow_step ext mgr c i n s)) ! c) ''previous_result'' = Some (JStr r)"
proof (cases "activate_skill ext mgr n (heap s ! c) s")
  case (Pair x s1)
  have h: "heap s1 = heap s" using activate_heap [of ext mgr n "heap s ! c" s] Pair by simp
  from Pair assms(2) have "x = Inr r" by simp
  with Pair h assms(1) show ?thesis
    by (simp add: workflow_step_def dict_set_def update_conv')
qed

lemma loop_heap:
  assumes "c < length (heap s)"
  shows "length (heap (snd (workflow_loop ext mgr c i ws s))) = length (heap s)
       \<and> (\<forall>a. a \<noteq> c \<longrightarrow> heap (snd (workflow_loop ext mgr c i ws s)) ! a = heap s ! a)
       \<and> (\<forall>k. k \<noteq> ''previous_result'' \<and> k \<notin> step_keys i ws \<longrightarrow>
             map_of (heap (snd (workflow_loop ext mgr c i ws s)) ! c) k = map_of (heap s ! c) k)"
  using assms
proof (induction ws arbitrary: i s)
  case Nil
  then show ?case by simp
next
  case (Cons n ws)
  obtain r s1 where st: "workflow_step ext mgr c i n s = (r, s1)"
    by (cases "workflow_step ext mgr c i n s")
  have s1: "length (heap s1) = length (heap s)"
    "\<forall>a. a \<noteq> c \<longrightarrow> heap s1 ! a = heap s ! a"
    "\<forall>k. k \<noteq> ''previous_result'' \<and> k \<noteq> step_key i n \<longrightarrow> map_of (heap s1 ! c) k = map_of (heap s ! c) k"
    using step_heap [OF Cons.prems, of ext mgr i n] st by simp_all
  show ?case
  proof (cases r)
    case (Inl e)
    with st s1 show ?thesis by (simp add: step_keys_def)
  next
    case (Inr u)
    have c1: "c < length (heap s1)" using s1(1) Cons.prems by simp
    have sk: "step_keys i (n # ws) = insert (step_key i n) (step_keys (i + 1) ws)"
      by (simp add: step_keys_def)
    from Inr st have eq: "workflow_loop ext mgr c i (n # ws) s = workflow_loop ext mgr c (i + 1) ws s1"
      by simp
    show ?thesis
      unfolding eq sk using Cons.IH [OF c1, of "i + 1"] s1 by simp
  qed
qed

lemma show_nat_nonempty: "show_nat n \<noteq> []"
  by (subst show_nat.simps) simp

lemma digit_in: "d < 10 \<Longrightarrow> ''0123456789'' ! d \<noteq> CHR ''_''"
proof -
  assume "d < 10"
  then have "''0123456789'' ! d \<in> set ''0123456789''"
    by (intro nth_mem) simp
  moreover have "CHR ''_'' \<notin> set ''0123456789''" by simp
  ultimately show ?thesis by metis
qed

lemma digit_inj:
  assumes "a < 10" "b < 10" "''0123456789'' ! a = ''0123456789'' ! b"
  shows "a = b"
proof -
  have "distinct ''0123456789''" by simp
  moreover have "a < length ''0123456789''" "b < length ''0123456789''" using assms by simp_all
  ultimately show ?thesis using assms(3) by (simp only: nth_eq_iff_index_eq)
qed

lemma show_nat_digits: "CHR ''_'' \<notin> set (show_nat n)"
proof (induction n rule: less_induct)
  case (less n)
  show ?case
  proof (cases "n < 10")
    case True
    then show ?thesis
      using digit_in [of n] by (subst show_nat.simps) auto
  next
    case False
    then have "n div 10 < n" by simp
    from less [OF this] have "CHR ''_'' \<notin> set (show_nat (n div 10))" .
    moreover have "''0123456789'' ! (n mod 10) \<noteq> CHR ''_''"
      by (rule digit_in) simp
    ultimately show ?thesis
      using False by (subst show_nat.simps) auto
  qed
qed

lemma show_nat_inj: "show_nat n = show_nat m \<Longrightarrow> n = m"
proof (induction n arbitrary: m rule: less_induct)
  case (less n)
  have un: "show_nat n = (if n < 10 then [''0123456789'' ! n]
              else show_nat (n div 10) @ [''0123456789'' ! (n mod 10)])"
    by (rule show_nat.simps)
  have um: "show_nat m = (if m < 10 then [''0123456789'' ! m]
              else show_nat (m div 10) @ [''0123456789'' ! (m mod 10)])"
    by (rule show_nat.simps)
  show ?case
  proof (cases "n < 10")
    case True
    show ?thesis
    proof (cases "m < 10")
      case m: True
      from less.prems True m un um have "''0123456789'' ! n = ''0123456789'' ! m" by simp
      with True m show ?thesis by (rule digit_inj)
    next
      case m: False
      from less.prems True m un um
      have "[''0123456789'' ! n] = show_nat (m div 10) @ [''0123456789'' ! (m mod 10)]" by simp
      then have "show_nat (m div 10) = []" by simp
      with show_nat_nonempty show ?thesis by blast
    qed
  next
    case False
    show ?thesis
    proof (cases "m < 10")
      case m: True
      from less.prems False m un um
      have "show_nat (n div 10) @ [''0123456789'' ! (n mod 10)] = [''0123456789'' ! m]" by simp
      then have "show_nat (n div 10) = []" by simp
      with show_nat_nonempty show ?thesis by blast
    next
      case m: False
      from less.prems False m un um
      have e: "show_nat (n div 10) @ [''0123456789'' ! (n mod 10)]
             = show_nat (m div 10) @ [''0123456789'' ! (m mod 10)]" by simp
      then have p: "show_nat (n div 10) = show_nat (m div 10)"
        and l: "''0123456789'' ! (n mod 10) = ''0123456789'' ! (m mod 10)" by simp_all
      have "n div 10 < n" using False by simp
      from less.IH [OF this p] have d: "n div 10 = m div 10" .
      have "n mod 10 = m mod 10"
        by (rule digit_inj [OF _ _ l]) simp_all
      with d show ?thesis by (metis div_mult_mod_eq)
    qed
  qed
qed

lemma prefix_before_char:
  assumes "xs @ a # ys = xs' @ a # ys'" "a \<notin> set xs" "a \<notin> set xs'"
  shows "xs = xs' \<and> ys = ys'"
proof -
  have "takeWhile (\<lambda>c. c \<noteq> a) (xs @ a # ys) = xs"
    using assms(2) by (auto simp add: takeWhile_tail)
  moreover have "takeWhile (\<lambda>c. c \<noteq> a) (xs' @ a # ys') = xs'"
    using assms(3) by (auto simp add: takeWhile_tail)
  ultimately have "xs = xs'" using assms(1) by simp
  with assms(1) show ?thesis by simp
qed

lemma step_key_inj:
  assumes "step_key i n = step_key j m"
  shows "i = j \<and> n = m"
proof -
  from assms have "show_nat (i + 1) @ CHR ''_'' # n = show_nat (j + 1) @ CHR ''_'' # m"
    by (simp add: step_key_def)
  then have "show_nat (i + 1) = show_nat (j + 1) \<and> n = m"
    by (rule prefix_before_char) (rule show_nat_digits)+
  then show ?thesis using show_nat_inj [of "i + 1" "j + 1"] by simp
qed

lemma step_key_not_previous: "step_key i n \<noteq> ''previous_result''"
  by (simp add: step_key_def)

lemma step_key_later:
  assumes "i < j"
  shows "step_key i n \<notin> step_keys j ws"
proof
  assume "step_key i n \<in> step_keys j ws"
  then obtain p where p: "p \<in> set (enumerate j ws)" "step_key i n = step_key (fst p) (snd p)"
    by (auto simp add: step_keys_def)
  from p(1) have "j \<le> fst p" by (simp add: in_set_enumerate_eq)
  moreover from p(2) have "i = fst p" using step_key_inj by blast
  ultimately show False using assms by simp
qed

lemma loop_append:
  "workflow_loop ext mgr c i (xs @ ys) s =
     (case workflow_loop ext mgr c i xs s of
        (Inl e, s1) \<Rightarrow> (Inl e, s1)
      | (Inr u, s1) \<Rightarrow> workflow_loop ext mgr c (i + length xs) ys s1)"
proof (induction xs arbitrary: i s)
  case Nil
  then show ?case by simp
next
  case (Cons x xs)
  obtain r s1 where st: "workflow_step ext mgr c i x s = (r, s1)"
    by (cases "workflow_step ext mgr c i x s")
  show ?case
  proof (cases r)
    case (Inl e)
    with st show ?thesis by simp
  next
    case (Inr u)
    obtain r2 s2 where lp: "workflow_loop ext mgr c (i + 1) xs s1 = (r2, s2)"
      by (cases "workflow_loop ext mgr c (i + 1) xs s1")
    have n: "i + 1 + length xs = i + length (x # xs)" by simp
    from Cons [of "i + 1" s1] lp
    have "workflow_loop ext mgr c (i + 1) (xs @ ys) s1 =
            (case r2 of Inl e \<Rightarrow> (Inl e, s2)
                      | Inr u \<Rightarrow> workflow_loop ext mgr c (i + length (x # xs)) ys s2)"
      unfolding n by (simp split: sum.splits)
    with st Inr lp show ?thesis by (simp split: sum.splits)
  qed
qed


lemma step_result:
  assumes "workflow_step ext mgr c i n s = (Inr u, s1)"
  shows "\<exists>r. fst (activate_skill ext mgr n (heap s ! c) s) = Inr r"
  using assms
  by (cases "activate_skill ext mgr n (heap s ! c) s")
     (auto simp add: workflow_step_def split: sum.splits)

lemma step_entry_kept:
  assumes c: "c < length (heap s0)"
    and run: "workflow_loop ext mgr c 0 (pre @ n # post) s0 = (Inr u, s')"
  shows "\<exists>r. fst (activate_skill ext mgr n
                   (heap (snd (workflow_loop ext mgr c 0 pre s0)) ! c)
                   (snd (workflow_loop ext mgr c 0 pre s0))) = Inr r
           \<and> map_of (heap s' ! c) (step_key (length pre) n) = Some (JStr r)
           \<and> (post = [] \<longrightarrow> map_of (heap s' ! c) ''previous_result'' = Some (JStr r))"
proof -
  obtain rp sp where lp: "workflow_loop ext mgr c 0 pre s0 = (rp, sp)"
    by (cases "workflow_loop ext mgr c 0 pre s0")
  from run lp have rest: "workflow_loop ext mgr c (length pre) (n # post) sp = (Inr u, s')"
    by (cases rp) (simp_all add: loop_append)
  have csp: "c < length (heap sp)"
    using loop_heap [OF c, of ext mgr 0 pre] lp c by simp
  obtain rn sn where st: "workflow_step ext mgr c (length pre) n sp = (rn, sn)"
    by (cases "workflow_step ext mgr c (length pre) n sp")
  from rest st obtain u' where rn: "rn = Inr u'"
    by (cases rn) simp_all
  from rest st rn have post: "workflow_loop ext mgr c (length pre + 1) post sn = (Inr u, s')"
    by simp
  from st rn obtain r where r: "fst (activate_skill ext mgr n (heap sp ! c) sp) = Inr r"
    using step_result by blast
  from step_stores [OF csp r, of "length pre"] st
  have sn: "map_of (heap sn ! c) (step_key (length pre) n) = Some (JStr r)"
           "map_of (heap sn ! c) ''previous_result'' = Some (JStr r)"
    by simp_all
  have csn: "c < length (heap sn)"
    using step_heap [OF csp, of ext mgr "length pre" n] st csp by simp
  have "step_key (length pre) n \<noteq> ''previous_result''
        \<and> step_key (length pre) n \<notin> step_keys (length pre + 1) post"
    using step_key_later [of "length pre" "length pre + 1" n post]
    by (simp add: step_key_not_previous)
  with loop_heap [OF csn, of ext mgr "length pre + 1" post] post
  have "map_of (heap s' ! c) (step_key (length pre) n) = map_of (heap sn ! c) (step_key (length pre) n)"
    by simp
  with sn(1) have a: "map_of (heap s' ! c) (step_key (length pre) n) = Some (JStr r)" by simp
  have b: "post = [] \<longrightarrow> map_of (heap s' ! c) ''previous_result'' = Some (JStr r)"
    using post sn(2) by auto
  from r a b lp show ?thesis by auto
qed

text \<open>
  C5, as amended. \<open>execute\_workflow\<close> works on a copy: every dictionary that existed
  before the call, the caller's \<open>initial\_context\<close> among them, is unchanged by it.
  When the workflow has run through, the copy it returns holds, for every step, the
  result of that step's activation under the step's own key \<open>step_<i>_<skill>\<close>: the keys
  of different steps differ and none is \<open>previous\_result\<close>, so no step overwrites the
  entry of another. \<open>previous\_result\<close> holds the result of the last step: every step
  overwrites it. Every key other than \<open>previous\_result\<close> and the step keys has the
  value the initial context gave it.
\<close>

theorem workflow_frame:
  assumes "initial_context < length (heap s)"
  shows "(\<forall>a < length (heap s).
            heap (snd (execute_workflow ext mgr workflow initial_context s)) ! a = heap s ! a)
       \<and> (\<forall>c. fst (execute_workflow ext mgr workflow initial_context s) = Inr c \<longrightarrow>
            c = length (heap s)
            \<and> (\<forall>k. k \<noteq> ''previous_result'' \<and> k \<notin> step_keys 0 workflow \<longrightarrow>
                 map_of (heap (snd (execute_workflow ext mgr workflow initial_context s)) ! c) k =
                 map_of (heap s ! initial_context) k)
            \<and> (\<forall>pre n post. workflow = pre @ n # post \<longrightarrow>
                 (\<exists>r. fst (activate_skill ext mgr n
                             (heap (state_before ext mgr pre initial_context s) ! c)
                             (state_before ext mgr pre initial_context s)) = Inr r
                    \<and> map_of (heap (snd (execute_workflow ext mgr workflow initial_context s)) ! c)
                         (step_key (length pre) n) = Some (JStr r)
                    \<and> (post = [] \<longrightarrow>
                         map_of (heap (snd (execute_workflow ext mgr workflow initial_context s)) ! c)
                           ''previous_result'' = Some (JStr r)))))
       \<and> (\<forall>i n j m. step_key i n = step_key j m \<longrightarrow> i = j \<and> n = m)
       \<and> (\<forall>i n. step_key i n \<noteq> ''previous_result'')"
proof -
  let ?c = "length (heap s)"
  let ?s0 = "s \<lparr> heap := heap s @ [heap s ! initial_context] \<rparr>"
  obtain r s' where lp: "workflow_loop ext mgr ?c 0 workflow ?s0 = (r, s')"
    by (cases "workflow_loop ext mgr ?c 0 workflow ?s0")
  have c0: "?c < length (heap ?s0)" by simp
  have s0: "snd (dict_copy initial_context s) = ?s0" by (simp add: dict_copy_def)
  have fr: "length (heap s') = length (heap ?s0)"
    "\<forall>a. a \<noteq> ?c \<longrightarrow> heap s' ! a = heap ?s0 ! a"
    "\<forall>k. k \<noteq> ''previous_result'' \<and> k \<notin> step_keys 0 workflow \<longrightarrow>
        map_of (heap s' ! ?c) k = map_of (heap ?s0 ! ?c) k"
    using loop_heap [OF c0, of ext mgr 0 workflow] lp by simp_all
  have ex: "execute_workflow ext mgr workflow initial_context s =
              ((case r of Inl e \<Rightarrow> Inl e | Inr u \<Rightarrow> Inr ?c), s')"
    using lp by (simp add: execute_workflow_def dict_copy_def split: sum.splits)
  have a: "\<forall>a < length (heap s). heap s' ! a = heap s ! a"
    using fr(2) by (simp add: nth_append)
  have b: "\<forall>k. k \<noteq> ''previous_result'' \<and> k \<notin> step_keys 0 workflow \<longrightarrow>
        map_of (heap s' ! ?c) k = map_of (heap s ! initial_context) k"
    using fr(3) by simp
  have d: "\<forall>pre n post. workflow = pre @ n # post \<longrightarrow> (\<forall>u. r = Inr u \<longrightarrow>
                 (\<exists>x. fst (activate_skill ext mgr n
                             (heap (state_before ext mgr pre initial_context s) ! ?c)
                             (state_before ext mgr pre initial_context s)) = Inr x
                    \<and> map_of (heap s' ! ?c) (step_key (length pre) n) = Some (JStr x)
                    \<and> (post = [] \<longrightarrow> map_of (heap s' ! ?c) ''previous_result'' = Some (JStr x))))"
  proof (intro allI impI)
    fix pre n post u
    assume w: "workflow = pre @ n # post" and ru: "r = Inr u"
    from lp w ru have "workflow_loop ext mgr ?c 0 (pre @ n # post) ?s0 = (Inr u, s')" by simp
    from step_entry_kept [OF c0 this]
    show "\<exists>x. fst (activate_skill ext mgr n
                             (heap (state_before ext mgr pre initial_context s) ! ?c)
                             (state_before ext mgr pre initial_context s)) = Inr x
                    \<and> map_of (heap s' ! ?c) (step_key (length pre) n) = Some (JStr x)
                    \<and> (post = [] \<longrightarrow> map_of (heap s' ! ?c) ''previous_result'' = Some (JStr x))"
      by (simp add: state_before_def s0)
  qed
  have e: "\<forall>i n j m. step_key i n = step_key j m \<longrightarrow> i = j \<and> n = m"
    using step_key_inj by blast
  have f: "\<forall>i n. step_key i n \<noteq> ''previous_result''"
    using step_key_not_previous by blast
  have m: "\<forall>c. fst (execute_workflow ext mgr workflow initial_context s) = Inr c \<longrightarrow>
            c = length (heap s)
            \<and> (\<forall>k. k \<noteq> ''previous_result'' \<and> k \<notin> step_keys 0 workflow \<longrightarrow>
                 map_of (heap (snd (execute_workflow ext mgr workflow initial_context s)) ! c) k =
                 map_of (heap s ! initial_context) k)
            \<and> (\<forall>pre n post. workflow = pre @ n # post \<longrightarrow>
                 (\<exists>r. fst (activate_skill ext mgr n
                             (heap (state_before ext mgr pre initial_context s) ! c)
                             (state_before ext mgr pre initial_context s)) = Inr r
                    \<and> map_of (heap (snd (execute_workflow ext mgr workflow initial_context s)) ! c)
                         (step_key (length pre) n) = Some (JStr r)
                    \<and> (post = [] \<longrightarrow>
                         map_of (heap (snd (execute_workflow ext mgr workflow initial_context s)) ! c)
                           ''previous_result'' = Some (JStr r))))"
  proof (intro allI impI)
    fix c assume "fst (execute_workflow ext mgr workflow initial_context s) = Inr c"
    with ex obtain u where ru: "r = Inr u" and cc: "c = ?c"
      by (cases r) simp_all
    show "c = length (heap s)
            \<and> (\<forall>k. k \<noteq> ''previous_result'' \<and> k \<notin> step_keys 0 workflow \<longrightarrow>
                 map_of (heap (snd (execute_workflow ext mgr workflow initial_context s)) ! c) k =
                 map_of (heap s ! initial_context) k)
            \<and> (\<forall>pre n post. workflow = pre @ n # post \<longrightarrow>
                 (\<exists>r. fst (activate_skill ext mgr n
                             (heap (state_before ext mgr pre initial_context s) ! c)
                             (state_before ext mgr pre initial_context s)) = Inr r
                    \<and> map_of (heap (snd (execute_workflow ext mgr workflow initial_context s)) ! c)
                         (step_key (length pre) n) = Some (JStr r)
                    \<and> (post = [] \<longrightarrow>
                         map_of (heap (snd (execute_workflow ext mgr workflow initial_context s)) ! c)
                           ''previous_result'' = Some (JStr r))))"
      unfolding ex cc using b d ru by simp
  qed
  have a': "\<forall>a < length (heap s).
            heap (snd (execute_workflow ext mgr workflow initial_context s)) ! a = heap s ! a"
    unfolding ex using a by simp
  from a' m e f show ?thesis by (intro conjI)
qed


lemma show_nat_1: "show_nat (Suc 0) = ''1''"
  by (subst show_nat.simps) simp

lemma show_nat_2: "show_nat 2 = ''2''"
  by (subst show_nat.simps) simp

lemma show_nat_2': "show_nat (Suc (Suc 0)) = ''2''"
  by (subst show_nat.simps) simp

lemmas show_nat_small = show_nat_1 show_nat_2 show_nat_2' 

lemma after_first:
  "after_first_step = \<lparr> heap = [[(''user_query'', JStr ''q'')],
      [(''user_query'', JStr ''q''), (''step_1_a'', JStr (''Skill '' @ [CHR 0x27] @ ''a'' @ [CHR 0x27] @ '' not found.'')),
       (''previous_result'', JStr (''Skill '' @ [CHR 0x27] @ ''a'' @ [CHR 0x27] @ '' not found.''))]],
      trace = [Activate ''a''] \<rparr>"
  by (simp add: after_first_step_def workflow_step_def dict_copy_def start_state_def activate_skill_def
        empty_manager_def dict_set_def not_found_msg_def quote_def step_key_def show_nat_small)

lemma run_two_steps:
  "execute_workflow example_externals empty_manager [''a'', ''b''] 0 start_state =
      (Inr 1, snd (workflow_step example_externals empty_manager 1 1 ''b'' after_first_step))"
  by (simp add: workflow_step_def activate_skill_def empty_manager_def dict_set_def
        not_found_msg_def quote_def step_key_def execute_workflow_def dict_copy_def start_state_def
        after_first_step_def show_nat_small)

text \<open>
  C5 as stated fails: in the workflow \<open>a, b\<close> the second step overwrites the value
  the first step stored under \<open>previous\_result\<close>.
\<close>

theorem previous_result_overwritten:
  "map_of (heap after_first_step ! 1) ''previous_result'' =
      Some (JStr (''Skill '' @ [CHR 0x27] @ ''a'' @ [CHR 0x27] @ '' not found.''))
   \<and> map_of (heap (snd (workflow_step example_externals empty_manager 1 1 ''b'' after_first_step)) ! 1)
        ''previous_result'' =
      Some (JStr (''Skill '' @ [CHR 0x27] @ ''b'' @ [CHR 0x27] @ '' not found.''))
   \<and> execute_workflow example_externals empty_manager [''a'', ''b''] 0 start_state =
      (Inr 1, snd (workflow_step example_externals empty_manager 1 1 ''b'' after_first_step))"
  apply (simp add: run_two_steps)
  apply (simp add: after_first)
  apply (simp add: workflow_step_def activate_skill_def empty_manager_def dict_set_def
        not_found_msg_def quote_def step_key_def show_nat_small)
  done

lemma no_skill_result:
  "fst (activate_skill example_externals empty_manager n cd st) =
     Inr (''Skill '' @ [CHR 0x27] @ n @ [CHR 0x27] @ '' not found.'')"
  by (simp add: activate_skill_def empty_manager_def not_found_msg_def quote_def)

theorem workflow_frame_witness:
  "0 < length (heap start_state)
   \<and> heap (snd (execute_workflow example_externals empty_manager [''a'', ''b''] 0 start_state)) ! 0
       = heap start_state ! 0
   \<and> map_of (heap (snd (execute_workflow example_externals empty_manager [''a'', ''b''] 0 start_state)) ! 1)
        ''user_query'' = map_of (heap start_state ! 0) ''user_query''
   \<and> map_of (heap (snd (execute_workflow example_externals empty_manager [''a'', ''b''] 0 start_state)) ! 1)
        (step_key 0 ''a'') = Some (JStr (''Skill '' @ [CHR 0x27] @ ''a'' @ [CHR 0x27] @ '' not found.''))
   \<and> map_of (heap (snd (execute_workflow example_externals empty_manager [''a'', ''b''] 0 start_state)) ! 1)
        ''previous_result'' = Some (JStr (''Skill '' @ [CHR 0x27] @ ''b'' @ [CHR 0x27] @ '' not found.''))"
proof -
  let ?run = "execute_workflow example_externals empty_manager [''a'', ''b''] 0 start_state"
  have h: "0 < length (heap start_state)" by (simp add: start_state_def)
  have r: "fst ?run = Inr 1"
    by (simp add: run_two_steps)
  have k: "''user_query'' \<noteq> ''previous_result'' \<and> ''user_query'' \<notin> step_keys 0 [''a'', ''b'']"
    by (simp add: step_keys_def step_key_def show_nat_small)
  note fr = workflow_frame [OF h, of example_externals empty_manager "[''a'', ''b'']"]
  have a: "heap (snd ?run) ! 0 = heap start_state ! 0"
    using fr [THEN conjunct1, rule_format, OF h] .
  note run = fr [THEN conjunct2, THEN conjunct1, rule_format, OF r]
  have b: "map_of (heap (snd ?run) ! 1) ''user_query'' = map_of (heap start_state ! 0) ''user_query''"
    using run [THEN conjunct2, THEN conjunct1, rule_format, OF k] .
  have w1: "[''a'', ''b''] = [] @ ''a'' # [''b'']" by simp
  have w2: "[''a'', ''b''] = [''a''] @ ''b'' # []" by simp
  from run [THEN conjunct2, THEN conjunct2, rule_format, OF w1]
  obtain x where x: "fst (activate_skill example_externals empty_manager ''a''
                        (heap (state_before example_externals empty_manager [] 0 start_state) ! 1)
                        (state_before example_externals empty_manager [] 0 start_state)) = Inr x"
    and sx: "map_of (heap (snd ?run) ! 1) (step_key (length ([]::string list)) ''a'') = Some (JStr x)"
    by blast
  from x have "x = ''Skill '' @ [CHR 0x27] @ ''a'' @ [CHR 0x27] @ '' not found.''"
    by (simp only: no_skill_result sum.inject)
  with sx have c: "map_of (heap (snd ?run) ! 1) (step_key 0 ''a'')
                   = Some (JStr (''Skill '' @ [CHR 0x27] @ ''a'' @ [CHR 0x27] @ '' not found.''))"
    by simp
  from run [THEN conjunct2, THEN conjunct2, rule_format, OF w2]
  obtain y where y: "fst (activate_skill example_externals empty_manager ''b''
                        (heap (state_before example_externals empty_manager [''a''] 0 start_state) ! 1)
                        (state_before example_externals empty_manager [''a''] 0 start_state)) = Inr y"
    and sy: "([]::string list) = [] \<longrightarrow> map_of (heap (snd ?run) ! 1) ''previous_result'' = Some (JStr y)"
    by blast
  from y have "y = ''Skill '' @ [CHR 0x27] @ ''b'' @ [CHR 0x27] @ '' not found.''"
    by (simp only: no_skill_result sum.inject)
  with sy have d: "map_of (heap (snd ?run) ! 1) ''previous_result''
                   = Some (JStr (''Skill '' @ [CHR 0x27] @ ''b'' @ [CHR 0x27] @ '' not found.''))"
    by simp
  from h a b c d show ?thesis by (intro conjI)
qed

section \<open>Token chunking\<close>

lemma token_loop_closed:
  assumes d: "overlap self < chunk_size self"
  shows "token_loop words self start chunks =
           Some (chunks @
                 map (\<lambda>j. make_chunk words self (start + int j * (chunk_size self - overlap self))
                            (int (length chunks) + int j))
                     [0..<nat (- ((start - int (length words)) div (chunk_size self - overlap self)))])"
proof (induction "nat (int (length words) - start)" arbitrary: start chunks rule: less_induct)
  case less
  let ?d = "chunk_size self - overlap self"
  let ?N = "int (length words)"
  have dpos: "0 < ?d" using d by simp
  show ?case
  proof (cases "start < ?N")
    case False
    then have "0 \<le> (start - ?N) div ?d" using dpos by (simp add: pos_imp_zdiv_nonneg_iff)
    then have "nat (- ((start - ?N) div ?d)) = 0" by simp
    with False show ?thesis by (simp add: token_loop.simps)
  next
    case True
    let ?s' = "next_start self start"
    let ?cs' = "chunks @ [make_chunk words self start (int (length chunks))]"
    have s': "?s' = start + ?d" by (simp add: next_start_def)
    have m: "nat (?N - ?s') < nat (?N - start)" using True dpos s' by simp
    have st: "token_loop words self start chunks = token_loop words self ?s' ?cs'"
      using True by (subst token_loop.simps) simp
    have "?s' - ?N = (start - ?N) + ?d" by (simp add: s')
    then have "(?s' - ?N) div ?d = ((start - ?N) + ?d) div ?d" by (rule arg_cong)
    also have "\<dots> = (start - ?N) div ?d + 1"
      using dpos by (subst div_add_self2) simp_all
    finally have dv: "(?s' - ?N) div ?d = (start - ?N) div ?d + 1" .
    have "start - ?N < 0" using True by simp
    then have neg: "(start - ?N) div ?d < 0" using dpos by (rule div_neg_pos_less0)
    define k where "k = nat (- ((?s' - ?N) div ?d))"
    have k: "nat (- ((start - ?N) div ?d)) = Suc k" using dv neg by (simp add: k_def)
    have up: "[0..<Suc k] = 0 # map Suc [0..<k]"
      by (simp add: upt_conv_Cons map_Suc_upt del: upt_Suc)
    show ?thesis
      unfolding st less [OF m] k up k_def [symmetric]
      by (simp add: s' o_def algebra_simps)
  qed
qed


lemma token_loop_returns:
  assumes "token_loop words self start chunks = Some y"
  shows "start < int (length words) \<longrightarrow> overlap self < chunk_size self"
proof (rule token_loop.raw_induct [where P = "\<lambda>words self start chunks y.
          start < int (length words) \<longrightarrow> overlap self < chunk_size self", OF _ assms])
  fix f :: "string list \<Rightarrow> DocumentChunker \<Rightarrow> int \<Rightarrow> token_chunk list \<Rightarrow> token_chunk list option"
    and words self start chunks y
  assume ih: "\<And>words self start chunks y. f words self start chunks = Some y \<Longrightarrow>
                start < int (length words) \<longrightarrow> overlap self < chunk_size self"
    and st: "(if start < int (length words)
              then f words self (next_start self start)
                     (chunks @ [make_chunk words self start (int (length chunks))])
              else Some chunks) = Some y"
  show "start < int (length words) \<longrightarrow> overlap self < chunk_size self"
  proof
    assume lt: "start < int (length words)"
    with st have "f words self (next_start self start)
                     (chunks @ [make_chunk words self start (int (length chunks))]) = Some y"
      by simp
    then have nx: "next_start self start < int (length words) \<longrightarrow> overlap self < chunk_size self"
      by (rule ih)
    show "overlap self < chunk_size self"
    proof (rule ccontr)
      assume "\<not> overlap self < chunk_size self"
      then have "next_start self start \<le> start" by (simp add: next_start_def)
      with lt nx \<open>\<not> overlap self < chunk_size self\<close> show False by simp
    qed
  qed
qed

text \<open>
  C10. \<open>chunk\_by\_tokens\<close> returns exactly when the chunk size exceeds the overlap or
  the text has no token; when the overlap is at least the chunk size, the start index
  of the loop never increases from one round to the next.
\<close>

theorem chunk_by_tokens_terminates_iff:
  "((\<exists>cs. chunk_by_tokens tk self text_in = Some cs) \<longleftrightarrow>
      (overlap self < chunk_size self \<or> word_tokenize tk text_in = []))
   \<and> (chunk_size self \<le> overlap self \<longrightarrow> next_start self start \<le> start)"
proof (intro conjI iffI)
  assume "\<exists>cs. chunk_by_tokens tk self text_in = Some cs"
  then obtain cs where "token_loop (word_tokenize tk text_in) self 0 [] = Some cs"
    by (auto simp add: chunk_by_tokens_def)
  then have "0 < int (length (word_tokenize tk text_in)) \<longrightarrow> overlap self < chunk_size self"
    by (rule token_loop_returns)
  then show "overlap self < chunk_size self \<or> word_tokenize tk text_in = []"
    by auto
next
  assume a: "overlap self < chunk_size self \<or> word_tokenize tk text_in = []"
  show "\<exists>cs. chunk_by_tokens tk self text_in = Some cs"
  proof (cases "word_tokenize tk text_in = []")
    case True
    then show ?thesis
      by (simp add: chunk_by_tokens_def token_loop.simps)
  next
    case False
    with a have "overlap self < chunk_size self" by simp
    then show ?thesis
      by (simp add: chunk_by_tokens_def token_loop_closed)
  qed
next
  show "chunk_size self \<le> overlap self \<longrightarrow> next_start self start \<le> start"
    by (simp add: next_start_def)
qed

lemma split_abc: "py_split ''a b'' = [''a'', ''b'']"
  by (simp add: py_split_def is_space_def)

theorem chunk_by_tokens_terminates_iff_witness:
  "chunk_by_tokens example_nltk \<lparr> chunk_size = 2, overlap = 2 \<rparr> ''a b'' = None
   \<and> next_start \<lparr> chunk_size = 2, overlap = 2 \<rparr> 0 \<le> 0"
  using chunk_by_tokens_terminates_iff
          [of example_nltk "\<lparr> chunk_size = 2, overlap = 2 \<rparr>" "''a b''" 0]
  by (simp add: example_nltk_def split_abc)

lemma covered:
  assumes d: "overlap self < chunk_size self" and o: "0 \<le> overlap self"
    and i: "i < length words"
  shows "\<exists>j < nat (- ((0 - int (length words)) div (chunk_size self - overlap self))).
           start_word (make_chunk words self (0 + int j * (chunk_size self - overlap self)) (int j)) \<le> int i
         \<and> int i < end_word (make_chunk words self (0 + int j * (chunk_size self - overlap self)) (int j))"
proof -
  let ?d = "chunk_size self - overlap self"
  let ?N = "int (length words)"
  have dpos: "0 < ?d" using d by simp
  define j where "j = nat (int i div ?d)"
  have q: "0 \<le> int i div ?d" using dpos by (simp add: pos_imp_zdiv_nonneg_iff)
  then have ij: "int j = int i div ?d" by (simp add: j_def)
  have md: "?d * (int i div ?d) + int i mod ?d = int i"
    by (rule mult_div_mod_eq)
  have m0: "0 \<le> int i mod ?d" using dpos by simp
  have m1: "int i mod ?d < ?d" using dpos by simp
  have lo': "?d * (int i div ?d) \<le> int i" using md m0 by linarith
  have hi': "int i < ?d * (int i div ?d) + ?d" using md m1 by linarith
  have lo: "int j * ?d \<le> int i"
    unfolding ij using lo' by (simp only: mult.commute)
  have hi: "int i < int j * ?d + ?d"
    unfolding ij using hi' by (simp only: mult.commute)
  have "int j * ?d < ?N" using lo i by simp
  define q where "q = (- ?N) div ?d"
  have "?d * q + (- ?N) mod ?d = - ?N"
    unfolding q_def by (rule mult_div_mod_eq)
  moreover have "0 \<le> (- ?N) mod ?d" using dpos by simp
  ultimately have "?N \<le> - (?d * q)" by linarith
  with \<open>int j * ?d < ?N\<close> have "int j * ?d < - (?d * q)" by linarith
  then have "?d * int j < ?d * (- q)" by (simp add: mult.commute)
  then have "int j < - q" using dpos by (simp only: mult_less_cancel_left_pos)
  then have "int j < - ((0 - ?N) div ?d)" by (simp add: q_def)
  then have jn: "j < nat (- ((0 - ?N) div ?d))" by simp
  have "start_word (make_chunk words self (0 + int j * ?d) (int j)) \<le> int i"
    using lo o by (simp add: make_chunk_def)
  moreover have "int i < end_word (make_chunk words self (0 + int j * ?d) (int j))"
    using hi o by (simp add: make_chunk_def)
  ultimately show ?thesis using jn by blast
qed

text \<open>
  C1, as amended. For a text of N tokens and a chunk size C above the overlap O,
  \<open>chunk\_by\_tokens\<close> returns, and returns exactly \<open>\<lceil>N / (C - O)\<rceil>\<close> chunks: one for every
  start index \<open>0, C - O, 2 (C - O), \<dots>\<close> below N. When the overlap is not negative, the
  ranges \<open>[start_word, end_word)\<close> of the chunks cover every index below N.
\<close>

theorem chunk_by_tokens_count:
  assumes "overlap self < chunk_size self"
  shows "\<exists>cs. chunk_by_tokens tk self text_in = Some cs
           \<and> int (length cs) =
               \<lceil>real (length (word_tokenize tk text_in)) / real_of_int (chunk_size self - overlap self)\<rceil>
           \<and> (0 \<le> overlap self \<longrightarrow>
                (\<forall>i < length (word_tokenize tk text_in).
                    \<exists>c \<in> set cs. start_word c \<le> int i \<and> int i < end_word c))"
proof -
  let ?words = "word_tokenize tk text_in"
  let ?d = "chunk_size self - overlap self"
  let ?k = "nat (- ((0 - int (length ?words)) div ?d))"
  let ?cs = "map (\<lambda>j. make_chunk ?words self (0 + int j * ?d) (int j)) [0..<?k]"
  have dpos: "0 < ?d" using assms by simp
  have r: "chunk_by_tokens tk self text_in = Some ?cs"
    using token_loop_closed [OF assms, of ?words 0 "[]"] by (simp add: chunk_by_tokens_def)
  have "0 \<le> real (length ?words) / real_of_int ?d"
    using dpos by (intro divide_nonneg_pos) simp_all
  then have "- 1 < real (length ?words) / real_of_int ?d" by linarith
  then have "0 \<le> \<lceil>real (length ?words) / real_of_int ?d\<rceil>"
    by (simp only: zero_le_ceiling)
  moreover have "- ((0 - int (length ?words)) div ?d) = \<lceil>real (length ?words) / real_of_int ?d\<rceil>"
    using ceiling_divide_eq_div [of "int (length ?words)" ?d, where ?'a = real] by simp
  ultimately have n: "int (length ?cs) = \<lceil>real (length ?words) / real_of_int ?d\<rceil>"
    by simp
  have c: "0 \<le> overlap self \<longrightarrow>
           (\<forall>i < length ?words. \<exists>c \<in> set ?cs. start_word c \<le> int i \<and> int i < end_word c)"
  proof (intro impI allI)
    fix i assume o: "0 \<le> overlap self" and i: "i < length ?words"
    from covered [OF assms o i] obtain j where
      j: "j < ?k" "start_word (make_chunk ?words self (0 + int j * ?d) (int j)) \<le> int i"
         "int i < end_word (make_chunk ?words self (0 + int j * ?d) (int j))"
      by blast
    have "make_chunk ?words self (0 + int j * ?d) (int j) \<in> set ?cs"
      using j(1) by (auto simp add: image_iff)
    with j(2,3) show "\<exists>c \<in> set ?cs. start_word c \<le> int i \<and> int i < end_word c"
      by blast
  qed
  from r n c show ?thesis by blast
qed


lemma split_ten:
  "py_split ''a b c d e f g h i j'' =
     [''a'', ''b'', ''c'', ''d'', ''e'', ''f'', ''g'', ''h'', ''i'', ''j'']"
  by (simp add: py_split_def is_space_def)

lemma split_one: "py_split ''a'' = [''a'']"
  by (simp add: py_split_def is_space_def)

lemma upt_5: "[0..<5] = [0, 1, 2, 3, 4]"
  by (simp add: upt_rec)

text \<open>
  C1 as stated fails. Ten tokens with chunk size 4 and overlap 2 give five chunks, not
  \<open>\<lceil>(10 - 2) / (4 - 2)\<rceil> = 4\<close>; and with the overlap \<open>-1\<close> the only chunk of a one-token
  text has the range \<open>[1, 2)\<close>, which leaves index 0 out.
\<close>

theorem chunk_count_counterexample:
  "map_option length
      (chunk_by_tokens example_nltk \<lparr> chunk_size = 4, overlap = 2 \<rparr> ''a b c d e f g h i j'') = Some 5
   \<and> \<lceil>((10::real) - 2) / (4 - 2)\<rceil> = 4
   \<and> map_option word_ranges
      (chunk_by_tokens example_nltk \<lparr> chunk_size = 2, overlap = - 1 \<rparr> ''a'') = Some [(1, 2)]"
proof (intro conjI)
  show "map_option length
      (chunk_by_tokens example_nltk \<lparr> chunk_size = 4, overlap = 2 \<rparr> ''a b c d e f g h i j'') = Some 5"
    by (simp add: chunk_by_tokens_def example_nltk_def split_ten token_loop_closed)
  show "\<lceil>((10::real) - 2) / (4 - 2)\<rceil> = 4"
    by simp
  show "map_option word_ranges
      (chunk_by_tokens example_nltk \<lparr> chunk_size = 2, overlap = - 1 \<rparr> ''a'') = Some [(1, 2)]"
    by (simp add: chunk_by_tokens_def example_nltk_def split_one token_loop_closed
          word_ranges_def make_chunk_def)
qed

theorem chunk_by_tokens_count_witness:
  "overlap \<lparr> chunk_size = 4, overlap = 2 \<rparr> < chunk_size \<lparr> chunk_size = 4, overlap = 2 \<rparr>
   \<and> (\<exists>cs. chunk_by_tokens example_nltk \<lparr> chunk_size = 4, overlap = 2 \<rparr> ''a b c d e f g h i j'' = Some cs
          \<and> int (length cs) = 5
          \<and> (\<exists>c \<in> set cs. start_word c \<le> 9 \<and> 9 < end_word c))"
proof -
  let ?self = "\<lparr> chunk_size = 4, overlap = 2 \<rparr>"
  have h: "overlap ?self < chunk_size ?self" by simp
  have w: "word_tokenize example_nltk ''a b c d e f g h i j'' =
             [''a'', ''b'', ''c'', ''d'', ''e'', ''f'', ''g'', ''h'', ''i'', ''j'']"
    by (simp add: example_nltk_def split_ten)
  from chunk_by_tokens_count [OF h, of example_nltk "''a b c d e f g h i j''"]
  obtain cs where
    r: "chunk_by_tokens example_nltk ?self ''a b c d e f g h i j'' = Some cs" and
    n: "int (length cs) =
          \<lceil>real (length (word_tokenize example_nltk ''a b c d e f g h i j'')) /
            real_of_int (chunk_size ?self - overlap ?self)\<rceil>" and
    c: "0 \<le> overlap ?self \<longrightarrow>
          (\<forall>i < length (word_tokenize example_nltk ''a b c d e f g h i j'').
              \<exists>c \<in> set cs. start_word c \<le> int i \<and> int i < end_word c)"
    by blast
  from n have n': "int (length cs) = 5" by (simp add: w)
  from c have "\<forall>i < 10. \<exists>c \<in> set cs. start_word c \<le> int i \<and> int i < end_word c"
    by (simp add: w)
  then have "\<exists>c \<in> set cs. start_word c \<le> int 9 \<and> int 9 < end_word c"
    by (rule allE [where x = 9]) simp
  then have c': "\<exists>c \<in> set cs. start_word c \<le> 9 \<and> 9 < end_word c" by simp
  from h r n' c' show ?thesis by blast
qed

section \<open>Sentence chunking\<close>

lemma slice_nonneg:
  assumes "0 \<le> a" "a \<le> b" "b \<le> int (length xs)"
  shows "py_slice xs a b = take (nat b - nat a) (drop (nat a) xs)"
proof -
  have "nat b \<le> length xs" using assms by linarith
  moreover have "nat a \<le> length xs" using assms by linarith
  ultimately show ?thesis
    using assms by (simp add: py_slice_def slice_index_def Let_def)
qed

lemma slice_append:
  assumes "0 \<le> a" "a \<le> b" "b \<le> int (length xs)"
  shows "py_slice (xs @ ys) a b = py_slice xs a b"
proof -
  have "b \<le> int (length (xs @ ys))" using assms(3) by simp
  then have "py_slice (xs @ ys) a b = take (nat b - nat a) (drop (nat a) (xs @ ys))"
    using assms(1,2) by (rule slice_nonneg [rotated 2])
  also have "\<dots> = take (nat b - nat a) (drop (nat a) xs)"
    using assms by simp
  also have "\<dots> = py_slice xs a b"
    using assms by (simp add: slice_nonneg)
  finally show ?thesis .
qed

lemma whole_sentences_append:
  "whole_sentences xs c \<Longrightarrow> whole_sentences (xs @ ys) c"
  by (auto simp add: whole_sentences_def slice_append)

lemma keep_overlap_suffix:
  "\<exists>k. fst (keep_overlap tk self rs acc n) = rev (take k rs) @ acc"
proof (induction rs arbitrary: acc n)
  case Nil
  then show ?case by simp
next
  case (Cons s rs)
  show ?case
  proof (cases "n + int (length (word_tokenize tk s)) \<le> overlap self")
    case True
    from Cons [of "s # acc" "n + int (length (word_tokenize tk s))"]
    obtain k where "fst (keep_overlap tk self rs (s # acc) (n + int (length (word_tokenize tk s))))
                     = rev (take k rs) @ s # acc" by blast
    with True have "fst (keep_overlap tk self (s # rs) acc n) = rev (take (Suc k) (s # rs)) @ acc"
      by simp
    then show ?thesis by blast
  next
    case False
    then have "fst (keep_overlap tk self (s # rs) acc n) = rev (take 0 (s # rs)) @ acc"
      by simp
    then show ?thesis by blast
  qed
qed

lemma keep_overlap_drop:
  "\<exists>m. fst (keep_overlap tk self (rev cur) [] 0) = drop m cur"
proof -
  from keep_overlap_suffix [of tk self "rev cur" "[]" 0]
  obtain k where "fst (keep_overlap tk self (rev cur) [] 0) = rev (take k (rev cur)) @ []"
    by blast
  then have "fst (keep_overlap tk self (rev cur) [] 0) = drop (length cur - k) cur"
    by (simp add: take_rev)
  then show ?thesis by blast
qed

lemma drop_is_suffix:
  assumes "ys = drop n xs"
  shows "ys = drop (length xs - length ys) xs"
proof (cases "n \<le> length xs")
  case True
  then show ?thesis using assms by simp
next
  case False
  then show ?thesis using assms by simp
qed


lemma sentence_inv:
  "case foldl (sentence_step tk self) ([], [], 0) (enumerate 0 xs) of
     (chunks, cur, n) \<Rightarrow>
        cur = drop (length xs - length cur) xs
      \<and> (\<forall>c \<in> set chunks. whole_sentences xs c)
      \<and> (\<forall>j < length xs - length cur.
            \<exists>c \<in> set chunks. start_sentence c \<le> int j \<and> int j \<le> end_sentence c)"
proof (induction xs rule: rev_induct)
  case Nil
  then show ?case by simp
next
  case (snoc x xs)
  obtain chunks cur n where st:
    "foldl (sentence_step tk self) ([], [], 0) (enumerate 0 xs) = (chunks, cur, n)"
    by (cases "foldl (sentence_step tk self) ([], [], 0) (enumerate 0 xs)") auto
  from snoc st have cur: "cur = drop (length xs - length cur) xs"
    and ws: "\<forall>c \<in> set chunks. whole_sentences xs c"
    and cov: "\<forall>j < length xs - length cur.
            \<exists>c \<in> set chunks. start_sentence c \<le> int j \<and> int j \<le> end_sentence c"
    by simp_all
  have lc: "length cur \<le> length xs"
    using cur by (metis diff_le_self length_drop)
  have run: "foldl (sentence_step tk self) ([], [], 0) (enumerate 0 (xs @ [x]))
             = sentence_step tk self (chunks, cur, n) (length xs, x)"
    using st by (simp add: enumerate_append_eq)
  have ws': "\<forall>c \<in> set chunks. whole_sentences (xs @ [x]) c"
    using ws by (simp add: whole_sentences_append)
  let ?t = "int (length (word_tokenize tk x))"
  show ?case
  proof (cases "n + ?t > chunk_size self \<and> cur \<noteq> []")
    case False
    then have s: "sentence_step tk self (chunks, cur, n) (length xs, x)
                  = (chunks, cur @ [x], n + ?t)"
      by (auto simp add: sentence_step_def)
    have "cur @ [x] = drop (length (xs @ [x]) - length (cur @ [x])) (xs @ [x])"
      using cur lc by simp
    moreover have "\<forall>j < length (xs @ [x]) - length (cur @ [x]).
            \<exists>c \<in> set chunks. start_sentence c \<le> int j \<and> int j \<le> end_sentence c"
      using cov by simp
    ultimately show ?thesis
      unfolding run s using ws' by simp
  next
    case True
    obtain ov ol where ko: "keep_overlap tk self (rev cur) [] 0 = (ov, ol)"
      by (cases "keep_overlap tk self (rev cur) [] 0")
    let ?c0 = "\<lparr> sentence_text = py_join '' '' cur,
                 start_sentence = int (length xs) - int (length cur),
                 end_sentence = int (length xs) - 1,
                 sentence_chunk_id = int (length chunks) \<rparr>"
    from True ko have s: "sentence_step tk self (chunks, cur, n) (length xs, x)
                  = (chunks @ [?c0], ov @ [x], ol + ?t)"
      by (simp add: sentence_step_def)
    from keep_overlap_drop [of tk self cur] ko obtain m where "ov = drop m cur"
      by auto
    with cur have "ov = drop (m + (length xs - length cur)) xs" by (metis drop_drop)
    then have ov: "ov = drop (length xs - length ov) xs" by (rule drop_is_suffix)
    have lo: "length ov \<le> length cur" using \<open>ov = drop m cur\<close> by simp
    have cur1: "1 \<le> length cur" using True by (cases cur) simp_all
    have sl: "py_slice xs (int (length xs) - int (length cur)) (int (length xs)) = cur"
    proof -
      have "py_slice xs (int (length xs) - int (length cur)) (int (length xs))
              = take (nat (int (length xs)) - nat (int (length xs) - int (length cur)))
                     (drop (nat (int (length xs) - int (length cur))) xs)"
        using lc by (intro slice_nonneg) simp_all
      also have "nat (int (length xs) - int (length cur)) = length xs - length cur"
        using lc by simp
      finally show ?thesis using cur lc by simp
    qed
    have w0: "whole_sentences xs ?c0"
      using lc True sl by (simp add: whole_sentences_def)
    then have w0': "whole_sentences (xs @ [x]) ?c0"
      by (rule whole_sentences_append)
    have a: "ov @ [x] = drop (length (xs @ [x]) - length (ov @ [x])) (xs @ [x])"
      using ov lo lc by simp
    have c: "\<forall>j < length (xs @ [x]) - length (ov @ [x]).
            \<exists>c \<in> set (chunks @ [?c0]). start_sentence c \<le> int j \<and> int j \<le> end_sentence c"
    proof (intro allI impI)
      fix j assume j: "j < length (xs @ [x]) - length (ov @ [x])"
      show "\<exists>c \<in> set (chunks @ [?c0]). start_sentence c \<le> int j \<and> int j \<le> end_sentence c"
      proof (cases "j < length xs - length cur")
        case True
        with cov show ?thesis by auto
      next
        case False
        with j lc have "start_sentence ?c0 \<le> int j \<and> int j \<le> end_sentence ?c0"
          by (simp; arith)
        then show ?thesis by simp
      qed
    qed
    show ?thesis
      unfolding run s using a c ws' w0' by simp
  qed
qed

text \<open>
  C6. For every text, chunk size and overlap, every chunk of \<open>chunk\_by\_sentences\<close> is
  made of whole sentences (its text is the sentences \<open>start_sentence\<close> to
  \<open>end_sentence\<close> of the text, joined by single spaces), and every sentence of the text
  lies in the range of at least one chunk.
\<close>

theorem sentences_kept_whole:
  "(\<forall>c \<in> set (chunk_by_sentences tk self text_in).
       whole_sentences (sent_tokenize tk text_in) c)
   \<and> (\<forall>j < length (sent_tokenize tk text_in).
        \<exists>c \<in> set (chunk_by_sentences tk self text_in).
           start_sentence c \<le> int j \<and> int j \<le> end_sentence c)"
proof -
  let ?xs = "sent_tokenize tk text_in"
  obtain chunks cur n where st:
    "foldl (sentence_step tk self) ([], [], 0) (enumerate 0 ?xs) = (chunks, cur, n)"
    by (cases "foldl (sentence_step tk self) ([], [], 0) (enumerate 0 ?xs)") auto
  from sentence_inv [where tk = tk and self = self and xs = ?xs] st have cur: "cur = drop (length ?xs - length cur) ?xs"
    and ws: "\<forall>c \<in> set chunks. whole_sentences ?xs c"
    and cov: "\<forall>j < length ?xs - length cur.
            \<exists>c \<in> set chunks. start_sentence c \<le> int j \<and> int j \<le> end_sentence c"
    by simp_all
  have lc: "length cur \<le> length ?xs"
    using cur by (metis diff_le_self length_drop)
  show ?thesis
  proof (cases "cur = []")
    case True
    with st have "chunk_by_sentences tk self text_in = chunks"
      by (simp add: chunk_by_sentences_def)
    with ws cov True show ?thesis by simp
  next
    case False
    let ?c0 = "\<lparr> sentence_text = py_join '' '' cur,
                 start_sentence = int (length ?xs) - int (length cur),
                 end_sentence = int (length ?xs) - 1,
                 sentence_chunk_id = int (length chunks) \<rparr>"
    from False st have r: "chunk_by_sentences tk self text_in = chunks @ [?c0]"
      by (simp add: chunk_by_sentences_def Let_def)
    have cur1: "1 \<le> length cur" using False by (cases cur) simp_all
    have sl: "py_slice ?xs (int (length ?xs) - int (length cur)) (int (length ?xs)) = cur"
    proof -
      have "py_slice ?xs (int (length ?xs) - int (length cur)) (int (length ?xs))
              = take (nat (int (length ?xs)) - nat (int (length ?xs) - int (length cur)))
                     (drop (nat (int (length ?xs) - int (length cur))) ?xs)"
        using lc by (intro slice_nonneg) simp_all
      also have "nat (int (length ?xs) - int (length cur)) = length ?xs - length cur"
        using lc by simp
      finally show ?thesis using cur lc by simp
    qed
    have w0: "whole_sentences ?xs ?c0"
      using lc False sl by (simp add: whole_sentences_def)
    have c: "\<forall>j < length ?xs.
            \<exists>c \<in> set (chunks @ [?c0]). start_sentence c \<le> int j \<and> int j \<le> end_sentence c"
    proof (intro allI impI)
      fix j assume j: "j < length ?xs"
      show "\<exists>c \<in> set (chunks @ [?c0]). start_sentence c \<le> int j \<and> int j \<le> end_sentence c"
      proof (cases "j < length ?xs - length cur")
        case True
        with cov show ?thesis by auto
      next
        case False
        with j lc have "start_sentence ?c0 \<le> int j \<and> int j \<le> end_sentence ?c0"
          by (simp; arith)
        then show ?thesis by simp
      qed
    qed
    show ?thesis unfolding r using ws w0 c by simp
  qed
qed


lemma three_sentences:
  "sent_tokenize example_nltk ''A b.|C d.|E f.'' = [''A b.'', ''C d.'', ''E f.'']"
  by (simp add: example_nltk_def py_split_sep_def)

lemma two_words:
  "word_tokenize example_nltk ''A b.'' = [''A'', ''b.'']"
  "word_tokenize example_nltk ''C d.'' = [''C'', ''d.'']"
  "word_tokenize example_nltk ''E f.'' = [''E'', ''f.'']"
  by (simp_all add: example_nltk_def py_split_def is_space_def)

lemma sentence_example:
  "chunk_by_sentences example_nltk \<lparr> chunk_size = 4, overlap = 2 \<rparr> ''A b.|C d.|E f.'' =
     [\<lparr> sentence_text = ''A b. C d.'', start_sentence = 0, end_sentence = 1, sentence_chunk_id = 0 \<rparr>,
      \<lparr> sentence_text = ''C d. E f.'', start_sentence = 1, end_sentence = 2, sentence_chunk_id = 1 \<rparr>]"
  by (simp add: chunk_by_sentences_def three_sentences sentence_step_def two_words)

theorem sentences_kept_whole_witness:
  "2 < length (sent_tokenize example_nltk ''A b.|C d.|E f.'')
   \<and> (\<exists>c \<in> set (chunk_by_sentences example_nltk \<lparr> chunk_size = 4, overlap = 2 \<rparr> ''A b.|C d.|E f.'').
          start_sentence c \<le> 2 \<and> 2 \<le> end_sentence c)"
proof -
  have h: "2 < length (sent_tokenize example_nltk ''A b.|C d.|E f.'')"
    by (simp add: three_sentences)
  have "\<exists>c \<in> set (chunk_by_sentences example_nltk \<lparr> chunk_size = 4, overlap = 2 \<rparr> ''A b.|C d.|E f.'').
          start_sentence c \<le> int 2 \<and> int 2 \<le> end_sentence c"
    using sentences_kept_whole [where tk = example_nltk and text_in = "''A b.|C d.|E f.''",
             THEN conjunct2, rule_format, OF h] .
  then show ?thesis using h by simp
qed

section \<open>Skill requests of the agent\<close>

lemma requests_one_line:
  "skill_requests_of ''[USE_SKILL:extract] [USE_SKILL:summarize]'' = Inr [''extract'']"
  by (simp add: skill_requests_of_def py_split_sep_def nl_def marker_def requested_skill_def
        exn_bind_def py_strip_def is_space_def)

lemma requests_two_lines:
  "skill_requests_of two_line_response =
     Inr [''extract'', ''summarize'']"
  by (simp add: two_line_response_def skill_requests_of_def py_split_sep_def nl_def marker_def
        requested_skill_def exn_bind_def py_strip_def is_space_def)

text \<open>
  C4. The response \<open>[USE\_SKILL:extract] [USE\_SKILL:summarize]\<close> holds two markers on
  one line. The loop over the lines takes the name after the first marker of a line
  only: the requests are \<open>extract\<close> alone, one skill is activated, and the synthesis
  request follows. (With one marker on each line both skills are activated, in order,
  before the one synthesis request: \<open>markers_on_two_lines\<close>.)
\<close>

theorem second_marker_on_line_dropped:
  "skill_requests_of ''[USE_SKILL:extract] [USE_SKILL:summarize]'' = Inr [''extract'']
   \<and> activations (trace (snd (execute_skill_chain example_externals example_agent
          ''[USE_SKILL:extract] [USE_SKILL:summarize]'' None start_state))) = [''extract'']
   \<and> generations (trace (snd (execute_skill_chain example_externals example_agent
          ''[USE_SKILL:extract] [USE_SKILL:summarize]'' None start_state))) = [SynthesisCall]"
  by (simp add: requests_one_line execute_skill_chain_def example_externals_def example_agent_def
        empty_manager_def start_state_def activate_skill_def n_generated_def Let_def)

lemma markers_on_two_lines:
  "activations (trace (snd (execute_skill_chain example_externals example_agent
          two_line_response None start_state)))
     = [''extract'', ''summarize'']
   \<and> generations (trace (snd (execute_skill_chain example_externals example_agent
          two_line_response None start_state)))
     = [SynthesisCall]"
  by (simp add: requests_two_lines execute_skill_chain_def example_externals_def example_agent_def
        empty_manager_def start_state_def activate_skill_def n_generated_def Let_def)

section \<open>Semantic search\<close>

lemma stable_argsort_ok: "argsort_ok xs (stable_argsort xs)"
  by (simp add: argsort_ok_def stable_argsort_def)

lemma slice_from_zero: "py_slice xs 0 k = take (slice_index (length xs) k) xs"
  by (simp add: py_slice_def slice_index_def)

lemma slice_length_le:
  assumes "0 \<le> k"
  shows "int (length (py_slice xs 0 k)) \<le> k"
  using assms by (simp add: slice_from_zero slice_index_def)

lemma descending_top:
  assumes "sorted (map f idxs)"
  shows "sorted (rev (map f (filter P (take m (rev idxs)))))"
proof -
  have "rev (map f (filter P (take m (rev idxs)))) = map f (filter P (drop (length idxs - m) idxs))"
    by (simp add: rev_map rev_filter rev_take)
  moreover have "sorted (map f (drop (length idxs - m) idxs))"
    using assms by (simp add: drop_map [symmetric] sorted_wrt_drop)
  then have "sorted (map f (filter P (drop (length idxs - m) idxs)))"
    by (rule sorted_filter)
  ultimately show ?thesis by simp
qed

text \<open>
  C3, as amended. \<open>search\<close> raises ValueError as long as no documents are indexed. After
  \<open>index\_documents\<close> it returns, for every query, \<open>top\_k\<close> and threshold: results whose
  scores all reach the threshold; at most \<open>top\_k\<close> of them when \<open>top\_k\<close> is not
  negative; and in descending order of score, given that \<open>np.argsort\<close> sorts.
\<close>

theorem search_results:
  "(embeddings self = None \<longrightarrow>
      search np self query top_k threshold =
        Inl (ValueError ''No documents indexed. Call index_documents first.''))
   \<and> (\<exists>rs. search np (index_documents np self docs) query top_k threshold = Inr rs
          \<and> (0 \<le> top_k \<longrightarrow> int (length rs) \<le> top_k)
          \<and> (\<forall>r \<in> set rs. threshold \<le> score r)
          \<and> (argsort_ok (similarities np (map (encode np) docs) query)
                 (argsort np (similarities np (map (encode np) docs) query))
               \<longrightarrow> sorted (rev (map score rs))))"
proof (intro conjI impI)
  assume "embeddings self = None"
  then show "search np self query top_k threshold =
        Inl (ValueError ''No documents indexed. Call index_documents first.'')"
    by (simp add: search_def)
next
  let ?sims = "similarities np (map (encode np) docs) query"
  let ?top = "py_slice (rev (argsort np ?sims)) 0 top_k"
  let ?mk = "\<lambda>idx. \<lparr> index = idx, doc_text = docs ! idx, score = ?sims ! idx,
                       length_chars = length (docs ! idx),
                       length_words = length (py_split (docs ! idx)) \<rparr>"
  let ?rs = "map ?mk (filter (\<lambda>idx. threshold \<le> ?sims ! idx) ?top)"
  have r: "search np (index_documents np self docs) query top_k threshold = Inr ?rs"
    by (simp add: search_def index_documents_def Let_def)
  have n: "0 \<le> top_k \<longrightarrow> int (length ?rs) \<le> top_k"
  proof
    assume k: "0 \<le> top_k"
    have "length ?rs \<le> length ?top" by simp
    moreover have "int (length ?top) \<le> top_k" using k by (rule slice_length_le)
    ultimately show "int (length ?rs) \<le> top_k" by linarith
  qed
  have t: "\<forall>r \<in> set ?rs. threshold \<le> score r" by auto
  have s: "argsort_ok ?sims (argsort np ?sims) \<longrightarrow> sorted (rev (map score ?rs))"
  proof
    assume "argsort_ok ?sims (argsort np ?sims)"
    then have so: "sorted (map (\<lambda>i. ?sims ! i) (argsort np ?sims))"
      by (simp add: argsort_ok_def)
    have "map score ?rs = map (\<lambda>i. ?sims ! i) (filter (\<lambda>idx. threshold \<le> ?sims ! idx) ?top)"
      by (simp add: o_def)
    moreover have "sorted (rev (map (\<lambda>i. ?sims ! i) (filter (\<lambda>idx. threshold \<le> ?sims ! idx)
                     (take (slice_index (length (rev (argsort np ?sims))) top_k) (rev (argsort np ?sims))))))"
      using so by (rule descending_top)
    ultimately show "sorted (rev (map score ?rs))"
      by (simp only: slice_from_zero)
  qed
  from r n t s
  show "\<exists>rs. search np (index_documents np self docs) query top_k threshold = Inr rs
          \<and> (0 \<le> top_k \<longrightarrow> int (length rs) \<le> top_k)
          \<and> (\<forall>r \<in> set rs. threshold \<le> score r)
          \<and> (argsort_ok ?sims (argsort np ?sims) \<longrightarrow> sorted (rev (map score rs)))"
    by blast
qed

lemma sims_tie:
  "similarities example_numpy (map (encode example_numpy) [''cat sat'', ''cat sat'']) ''cat'' = [1, 1]"
  by (simp add: similarities_def example_numpy_def dot_def)

lemma sims_distinct:
  "similarities example_numpy (map (encode example_numpy) [''cat sat'', ''dog ran'']) ''cat'' = [1, 4 / 5]"
  by (simp add: similarities_def example_numpy_def dot_def)

lemma upt_2: "[0..<2] = [0, 1]"
  by (simp add: upt_rec)

lemma argsort_tie: "stable_argsort [1, 1] = [0, 1]"
  by (simp add: stable_argsort_def upt_2)

lemma argsort_distinct: "stable_argsort [1, 4 / 5] = [1, 0]"
  by (simp add: stable_argsort_def upt_2)

text \<open>
  C3 as stated fails for a negative \<open>top\_k\<close>: the slice \<open>[:-1]\<close> of two ranked
  documents keeps one, and one result is more than \<open>-1\<close>.
\<close>

theorem negative_top_k_counterexample:
  "map_sum id (map index)
     (search example_numpy (index_documents example_numpy new_search [''cat sat'', ''cat sat''])
        ''cat'' (- 1) (3 / 10)) = Inr [1]
   \<and> \<not> int (length [1::nat]) \<le> - 1"
  by (simp add: search_def index_documents_def new_search_def sims_tie [simplified]
        similarities_def example_numpy_def dot_def argsort_tie py_slice_def slice_index_def)


theorem search_results_witness:
  "embeddings new_search = None
   \<and> search example_numpy new_search ''cat'' 1 (3 / 10) =
        Inl (ValueError ''No documents indexed. Call index_documents first.'')
   \<and> (\<exists>rs. search example_numpy (index_documents example_numpy new_search [''cat sat'', ''dog ran''])
               ''cat'' 1 (3 / 10) = Inr rs
          \<and> int (length rs) \<le> 1
          \<and> sorted (rev (map score rs)))"
proof -
  note th = search_results [of new_search example_numpy "''cat''" 1 "3 / 10" "[''cat sat'', ''dog ran'']"]
  have e: "embeddings new_search = None" by (simp add: new_search_def)
  have a: "search example_numpy new_search ''cat'' 1 (3 / 10) =
        Inl (ValueError ''No documents indexed. Call index_documents first.'')"
    using th [THEN conjunct1, rule_format, OF e] .
  have ok: "argsort_ok (similarities example_numpy (map (encode example_numpy) [''cat sat'', ''dog ran'']) ''cat'')
              (argsort example_numpy
                 (similarities example_numpy (map (encode example_numpy) [''cat sat'', ''dog ran'']) ''cat''))"
    using stable_argsort_ok by (simp add: example_numpy_def)
  from th [THEN conjunct2] obtain rs where
    r: "search example_numpy (index_documents example_numpy new_search [''cat sat'', ''dog ran''])
               ''cat'' 1 (3 / 10) = Inr rs" and
    n: "(0::int) \<le> 1 \<longrightarrow> int (length rs) \<le> 1" and
    s: "argsort_ok (similarities example_numpy (map (encode example_numpy) [''cat sat'', ''dog ran'']) ''cat'')
              (argsort example_numpy
                 (similarities example_numpy (map (encode example_numpy) [''cat sat'', ''dog ran'']) ''cat''))
         \<longrightarrow> sorted (rev (map score rs))"
    by blast
  from n have n': "int (length rs) \<le> 1" by simp
  from s ok have s': "sorted (rev (map score rs))" by (rule mp)
  from e a r n' s' show ?thesis by blast
qed


section \<open>Hybrid search\<close>

text \<open>
  Sorting commutes with a renaming of the elements, and depends on the key only through the
  comparisons it induces.
\<close>

lemma insort_key_map:
  "insort_key f (g x) (map g ys) = map g (insort_key (\<lambda>a. f (g a)) x ys)"
  by (induction ys) simp_all

lemma sort_key_map:
  "sort_key f (map g xs) = map g (sort_key (\<lambda>a. f (g a)) xs)"
  by (induction xs) (simp_all add: insort_key_map)

lemma insort_key_equiv:
  assumes "\<forall>y \<in> set ys. (f x \<le> f y) = (g x \<le> g y)"
  shows "insort_key f x ys = insort_key g x ys"
  using assms by (induction ys) simp_all

lemma sort_key_equiv:
  assumes "\<forall>x \<in> set xs. \<forall>y \<in> set xs. (f x \<le> f y) = (g x \<le> g y)"
  shows "sort_key f xs = sort_key g xs"
  using assms
proof (induction xs)
  case Nil
  then show ?case by simp
next
  case (Cons x xs)
  then have ih: "sort_key f xs = sort_key g xs" by simp
  have "insort_key f x (sort_key g xs) = insort_key g x (sort_key g xs)"
    using Cons.prems by (intro insort_key_equiv) simp
  with ih show ?case by simp
qed

text \<open>
  The stable descending sort of the indices by a score that is positive and strictly monotone
  on the documents \<open>search\<close> keeps, and zero elsewhere, lists those documents in the order
  of \<open>search\<close> as long as no two of them have the same similarity.
\<close>

lemma filter_split_descending:
  fixes f :: "'a \<Rightarrow> real"
  assumes "sorted_wrt (\<lambda>a b. f b \<le> f a) r"
  shows "r = filter (\<lambda>i. t \<le> f i) r @ filter (\<lambda>i. \<not> t \<le> f i) r"
  using assms
proof (induction r)
  case Nil
  then show ?case by simp
next
  case (Cons x xs)
  then have ih: "xs = filter (\<lambda>i. t \<le> f i) xs @ filter (\<lambda>i. \<not> t \<le> f i) xs" by simp
  show ?case
  proof (cases "t \<le> f x")
    case True
    with ih show ?thesis by simp
  next
    case False
    have "\<forall>y \<in> set xs. \<not> t \<le> f y"
    proof
      fix y assume "y \<in> set xs"
      with Cons.prems have "f y \<le> f x" by simp
      with False show "\<not> t \<le> f y" by linarith
    qed
    then have "filter (\<lambda>i. t \<le> f i) xs = []" "filter (\<lambda>i. \<not> t \<le> f i) xs = xs"
      by (simp_all add: filter_empty_conv)
    with False show ?thesis by simp
  qed
qed

lemma distinct_filter_nth:
  assumes "distinct (filter P xs)" "i < length xs" "j < length xs" "P (xs ! i)" "xs ! i = xs ! j"
  shows "i = j"
  using assms
proof (induction xs arbitrary: i j)
  case Nil
  then show ?case by simp
next
  case (Cons x xs)
  show ?case
  proof (cases i)
    case 0
    show ?thesis
    proof (cases j)
      case 0
      with \<open>i = 0\<close> show ?thesis by simp
    next
      case (Suc j')
      with 0 Cons.prems have "P x" "xs ! j' = x" "j' < length xs" by simp_all
      then have "x \<in> set (filter P xs)" by auto
      with Cons.prems(1) \<open>P x\<close> show ?thesis by simp
    qed
  next
    case (Suc i')
    show ?thesis
    proof (cases j)
      case 0
      with Suc Cons.prems have "P x" "xs ! i' = x" "i' < length xs" by simp_all
      then have "x \<in> set (filter P xs)" by auto
      with Cons.prems(1) \<open>P x\<close> show ?thesis by simp
    next
      case (Suc j')
      have "distinct (filter P xs)" using Cons.prems(1) by (simp split: if_splits)
      with \<open>i = Suc i'\<close> Suc Cons.prems have "i' = j'"
        by (intro Cons.IH) simp_all
      with \<open>i = Suc i'\<close> Suc show ?thesis by simp
    qed
  qed
qed

lemma filter_single:
  assumes "distinct L" "j \<in> set L" "\<forall>i \<in> set L. P i = (i = j)"
  shows "filter P L = [j]"
  using assms
proof (induction L)
  case Nil
  then show ?case by simp
next
  case (Cons x xs)
  show ?case
  proof (cases "x = j")
    case True
    with Cons.prems have "\<forall>i \<in> set xs. \<not> P i" by auto
    then have "filter P xs = []" by (simp add: filter_empty_conv)
    with True Cons.prems show ?thesis by simp
  next
    case False
    with Cons show ?thesis by simp
  qed
qed

lemma filter_take_append:
  assumes "\<forall>x \<in> set A. P x" "\<forall>x \<in> set B. \<not> P x"
  shows "filter P (take m (A @ B)) = take m A"
proof -
  have "\<forall>x \<in> set (take m A). P x" using assms(1) by (meson in_set_takeD)
  moreover have "\<forall>x \<in> set (take (m - length A) B). \<not> P x"
    using assms(2) by (meson in_set_takeD)
  ultimately show ?thesis by (simp add: filter_empty_conv)
qed


lemma stable_descending:
  fixes v c :: "nat \<Rightarrow> real"
  assumes perm: "mset idxs = mset [0..<n]"
    and srt: "sorted (map v idxs)"
    and c_bad: "\<And>i. i < n \<Longrightarrow> \<not> t \<le> v i \<Longrightarrow> c i = 0"
    and c_pos: "\<And>i. i < n \<Longrightarrow> t \<le> v i \<Longrightarrow> 0 < c i"
    and c_mono: "\<And>i j. i < n \<Longrightarrow> j < n \<Longrightarrow> t \<le> v i \<Longrightarrow> t \<le> v j \<Longrightarrow> (c i \<le> c j) = (v i \<le> v j)"
    and inj: "\<And>i j. i < n \<Longrightarrow> j < n \<Longrightarrow> t \<le> v i \<Longrightarrow> v i = v j \<Longrightarrow> i = j"
  shows "sort_key (\<lambda>i. - c i) [0..<n] =
           filter (\<lambda>i. t \<le> v i) (rev idxs) @ filter (\<lambda>i. \<not> t \<le> v i) [0..<n]"
proof (rule properties_for_sort_key)
  let ?good = "filter (\<lambda>i. t \<le> v i) (rev idxs)"
  let ?bad = "filter (\<lambda>i. \<not> t \<le> v i) [0..<n]"
  have "set idxs = set [0..<n]"
    using perm by (rule mset_eq_setD)
  then have sets: "set idxs = {0..<n}" by simp
  have good_lt: "i < n" if "i \<in> set ?good" for i using that sets by simp
  have good_ge: "t \<le> v i" if "i \<in> set ?good" for i using that by simp
  have bad_lt: "i < n" if "i \<in> set ?bad" for i using that by simp
  have bad_ng: "\<not> t \<le> v i" if "i \<in> set ?bad" for i using that by simp
  have cpos: "0 < c i" if "i \<in> set ?good" for i
    using good_lt [OF that] good_ge [OF that] by (rule c_pos)
  have czero: "c i = 0" if "i \<in> set ?bad" for i
    using bad_lt [OF that] bad_ng [OF that] by (rule c_bad)
  show ms: "mset (?good @ ?bad) = mset [0..<n]"
  proof -
    have "mset ?good = filter_mset (\<lambda>i. t \<le> v i) (mset [0..<n])"
      using perm by simp
    moreover have "mset ?bad = filter_mset (\<lambda>i. \<not> t \<le> v i) (mset [0..<n])"
      by simp
    ultimately have "mset (?good @ ?bad) =
        filter_mset (\<lambda>i. t \<le> v i) (mset [0..<n]) + filter_mset (\<lambda>i. \<not> t \<le> v i) (mset [0..<n])"
      by (simp only: mset_append)
    also have "\<dots> = mset [0..<n]"
      by (rule multiset_partition [symmetric])
    finally show ?thesis .
  qed
  have "distinct (?good @ ?bad) = distinct [0..<n]"
    using ms by (rule mset_eq_imp_distinct_iff)
  then have dist: "distinct (?good @ ?bad)" by simp
  show "sorted (map (\<lambda>i. - c i) (?good @ ?bad))"
  proof -
    have "sorted_wrt (\<lambda>a b. v a \<le> v b) idxs" using srt by (simp add: sorted_map)
    then have "sorted_wrt (\<lambda>a b. v b \<le> v a) (rev idxs)" by (simp add: sorted_wrt_rev)
    then have "sorted_wrt (\<lambda>a b. v b \<le> v a) ?good" by (rule sorted_wrt_filter)
    then have "sorted_wrt (\<lambda>a b. - c a \<le> - c b) ?good"
    proof (rule sorted_wrt_mono_rel [rotated])
      fix a b assume a: "a \<in> set ?good" and b: "b \<in> set ?good" and le: "v b \<le> v a"
      have "(c b \<le> c a) = (v b \<le> v a)"
        using good_lt [OF b] good_lt [OF a] good_ge [OF b] good_ge [OF a] by (rule c_mono)
      with le show "- c a \<le> - c b" by simp
    qed
    then have g: "sorted (map (\<lambda>i. - c i) ?good)" by (simp only: sorted_map)
    have "sorted_wrt (\<lambda>a b. True) ?bad" by (simp only: sorted_wrt_true)
    then have "sorted_wrt (\<lambda>a b. - c a \<le> - c b) ?bad"
    proof (rule sorted_wrt_mono_rel [rotated])
      fix a b assume a: "a \<in> set ?bad" and b: "b \<in> set ?bad"
      show "- c a \<le> - c b" by (simp only: czero [OF a] czero [OF b])
    qed
    then have b: "sorted (map (\<lambda>i. - c i) ?bad)" by (simp only: sorted_map)
    have x: "- c a \<le> - c b" if "a \<in> set ?good" "b \<in> set ?bad" for a b
      using cpos [OF that(1)] czero [OF that(2)] by simp
    have "sorted (map (\<lambda>i. - c i) ?good @ map (\<lambda>i. - c i) ?bad)"
      unfolding sorted_append using g b x by auto
    then show ?thesis by (simp only: map_append)
  qed
  fix k assume k: "k \<in> set (?good @ ?bad)"
  then have kk: "k \<in> set ?good \<or> k \<in> set ?bad" by (simp only: set_append Un_iff)
  then have kn: "k < n" using good_lt bad_lt by blast
  show "filter (\<lambda>x. - c k = - c x) (?good @ ?bad) = filter (\<lambda>x. - c k = - c x) [0..<n]"
  proof (cases "t \<le> v k")
    case True
    have ckpos: "0 < c k" using kn True by (rule c_pos)
    have only: "(- c k = - c x) = (x = k)" if xn: "x < n" for x
    proof
      assume e: "- c k = - c x"
      with ckpos have cx: "0 < c x" by simp
      have gx: "t \<le> v x"
      proof (rule ccontr)
        assume "\<not> t \<le> v x"
        with xn have "c x = 0" by (rule c_bad)
        with cx show False by simp
      qed
      have "(c k \<le> c x) = (v k \<le> v x)" using kn xn True gx by (rule c_mono)
      moreover have "(c x \<le> c k) = (v x \<le> v k)" using xn kn gx True by (rule c_mono)
      ultimately have "v k = v x" using e by simp
      with kn xn True have "k = x" by (rule inj)
      then show "x = k" by simp
    next
      assume "x = k"
      then show "- c k = - c x" by simp
    qed
    have "filter (\<lambda>x. - c k = - c x) (?good @ ?bad) = [k]"
    proof (rule filter_single [OF dist k], rule ballI)
      fix i assume "i \<in> set (?good @ ?bad)"
      then have "i \<in> set ?good \<or> i \<in> set ?bad" by (simp only: set_append Un_iff)
      then have "i < n" using good_lt bad_lt by blast
      then show "(- c k = - c i) = (i = k)" by (rule only)
    qed
    moreover have "filter (\<lambda>x. - c k = - c x) [0..<n] = [k]"
    proof (rule filter_single)
      show "distinct [0..<n]" by simp
      show "k \<in> set [0..<n]" using kn by simp
      show "\<forall>i \<in> set [0..<n]. (- c k = - c i) = (i = k)" using only by simp
    qed
    ultimately show ?thesis by simp
  next
    case False
    with kn have ck: "c k = 0" by (rule c_bad)
    have "filter (\<lambda>x. - c k = - c x) ?good = []"
    proof -
      have "- c k \<noteq> - c x" if "x \<in> set ?good" for x
        using cpos [OF that] ck by simp
      then show ?thesis by (simp only: filter_empty_conv) blast
    qed
    moreover have "filter (\<lambda>x. - c k = - c x) ?bad = ?bad"
    proof -
      have "- c k = - c x" if "x \<in> set ?bad" for x
        using czero [OF that] ck by simp
      then show ?thesis by (simp only: filter_id_conv) blast
    qed
    moreover have "filter (\<lambda>x. - c k = - c x) [0..<n] = ?bad"
    proof (rule filter_cong [OF refl])
      fix x assume "x \<in> set [0..<n]"
      then have xn: "x < n" by simp
      show "(- c k = - c x) = (\<not> t \<le> v x)"
      proof (cases "t \<le> v x")
        case True
        with xn have "0 < c x" by (rule c_pos)
        with ck True show ?thesis by simp
      next
        case False
        with xn have "c x = 0" by (rule c_bad)
        with ck False show ?thesis by simp
      qed
    qed
    ultimately show ?thesis by (simp only: filter_append append_Nil)
  qed
qed

lemma rank_by_score:
  fixes v c :: "nat \<Rightarrow> real"
  assumes perm: "mset idxs = mset [0..<n]"
    and srt: "sorted (map v idxs)"
    and c_bad: "\<And>i. i < n \<Longrightarrow> \<not> t \<le> v i \<Longrightarrow> c i = 0"
    and c_pos: "\<And>i. i < n \<Longrightarrow> t \<le> v i \<Longrightarrow> 0 < c i"
    and c_mono: "\<And>i j. i < n \<Longrightarrow> j < n \<Longrightarrow> t \<le> v i \<Longrightarrow> t \<le> v j \<Longrightarrow> (c i \<le> c j) = (v i \<le> v j)"
    and inj: "\<And>i j. i < n \<Longrightarrow> j < n \<Longrightarrow> t \<le> v i \<Longrightarrow> v i = v j \<Longrightarrow> i = j"
  shows "filter (\<lambda>i. 0 < c i) (take m (sort_key (\<lambda>i. - c i) [0..<n])) =
         filter (\<lambda>i. t \<le> v i) (take m (rev idxs))"
proof -
  let ?good = "filter (\<lambda>i. t \<le> v i) (rev idxs)"
  let ?bad = "filter (\<lambda>i. \<not> t \<le> v i) [0..<n]"
  have "set idxs = set [0..<n]"
    using perm by (rule mset_eq_setD)
  then have sets: "set idxs = {0..<n}" by simp
  have good_lt: "i < n" if "i \<in> set ?good" for i using that sets by simp
  have good_ge: "t \<le> v i" if "i \<in> set ?good" for i using that by simp
  have bad_lt: "i < n" if "i \<in> set ?bad" for i using that by simp
  have bad_ng: "\<not> t \<le> v i" if "i \<in> set ?bad" for i using that by simp
  have h: "sort_key (\<lambda>i. - c i) [0..<n] = ?good @ ?bad"
    using perm srt c_bad c_pos c_mono inj by (rule stable_descending)
  have "filter (\<lambda>i. 0 < c i) (take m (?good @ ?bad)) = take m ?good"
  proof (rule filter_take_append)
    show "\<forall>x \<in> set ?good. 0 < c x"
    proof
      fix x assume x: "x \<in> set ?good"
      show "0 < c x" using good_lt [OF x] good_ge [OF x] by (rule c_pos)
    qed
    show "\<forall>x \<in> set ?bad. \<not> 0 < c x"
    proof
      fix x assume x: "x \<in> set ?bad"
      have "c x = 0" using bad_lt [OF x] bad_ng [OF x] by (rule c_bad)
      then show "\<not> 0 < c x" by simp
    qed
  qed
  moreover have "filter (\<lambda>i. t \<le> v i) (take m (rev idxs)) = take m ?good"
  proof -
    have "sorted_wrt (\<lambda>a b. v a \<le> v b) idxs" using srt by (simp add: sorted_map)
    then have "sorted_wrt (\<lambda>a b. v b \<le> v a) (rev idxs)" by (simp add: sorted_wrt_rev)
    then have sp: "rev idxs = ?good @ filter (\<lambda>i. \<not> t \<le> v i) (rev idxs)"
      by (rule filter_split_descending)
    have "filter (\<lambda>i. t \<le> v i) (take m (?good @ filter (\<lambda>i. \<not> t \<le> v i) (rev idxs))) = take m ?good"
      by (rule filter_take_append) simp_all
    with sp show ?thesis by simp
  qed
  ultimately show ?thesis unfolding h by simp
qed


text \<open>
  The indices the two methods return, read off their results.
\<close>

lemma search_indices:
  "map_sum id (map index) (search np (index_documents np self docs) query top_k t) =
     Inr (filter (\<lambda>i. t \<le> similarities np (map (encode np) docs) query ! i)
           (take (slice_index (length (argsort np (similarities np (map (encode np) docs) query))) top_k)
              (rev (argsort np (similarities np (map (encode np) docs) query)))))"
  by (simp add: search_def index_documents_def Let_def slice_from_zero o_def)

lemma search_scores:
  "\<exists>rs. search np (index_documents np self docs) query top_k t = Inr rs
     \<and> map (\<lambda>r. (index r, score r)) rs =
         map (\<lambda>i. (i, similarities np (map (encode np) docs) query ! i))
           (filter (\<lambda>i. t \<le> similarities np (map (encode np) docs) query ! i)
             (take (slice_index (length (argsort np (similarities np (map (encode np) docs) query))) top_k)
                (rev (argsort np (similarities np (map (encode np) docs) query)))))"
  by (simp add: search_def index_documents_def Let_def slice_from_zero o_def)

lemma hybrid_indices:
  assumes "search np self query (int (length docs)) (3 / 10) = Inr rs"
  shows "map_sum id (map hybrid_index) (hybrid_search np self query docs top_k alpha) =
     Inr (filter (\<lambda>i. 0 < combined_score alpha (map (\<lambda>r. (index r, score r)) rs)
                            (map (lexical_score query) docs) i)
           (take (slice_index (length docs) top_k)
              (sort_key (\<lambda>i. - combined_score alpha (map (\<lambda>r. (index r, score r)) rs)
                            (map (lexical_score query) docs) i) [0..<length docs])))"
proof -
  let ?c = "combined_score alpha (map (\<lambda>r. (index r, score r)) rs) (map (lexical_score query) docs)"
  have s: "sort_key (\<lambda>x. - snd x) (map (\<lambda>i. (i, ?c i)) [0..<length docs])
          = map (\<lambda>i. (i, ?c i)) (sort_key (\<lambda>i. - ?c i) [0..<length docs])"
    by (simp add: sort_key_map)
  show ?thesis
    using assms
    by (simp add: hybrid_search_def exn_bind_def Let_def s slice_from_zero take_map filter_map o_def)
qed

lemma same_keys_same_rank:
  fixes f g :: "nat \<Rightarrow> real"
  assumes "\<And>i. i < n \<Longrightarrow> f i = g i"
  shows "filter (\<lambda>i. 0 < f i) (take m (sort_key (\<lambda>i. - f i) [0..<n])) =
         filter (\<lambda>i. 0 < g i) (take m (sort_key (\<lambda>i. - g i) [0..<n]))"
proof -
  have "sort_key (\<lambda>i. - f i) [0..<n] = sort_key (\<lambda>i. - g i) [0..<n]"
    by (rule sort_key_equiv) (simp add: assms)
  moreover have "filter (\<lambda>i. 0 < f i) (take m (sort_key (\<lambda>i. - g i) [0..<n])) =
                 filter (\<lambda>i. 0 < g i) (take m (sort_key (\<lambda>i. - g i) [0..<n]))"
  proof (rule filter_cong [OF refl])
    fix x assume "x \<in> set (take m (sort_key (\<lambda>i. - g i) [0..<n]))"
    then have "x \<in> set (sort_key (\<lambda>i. - g i) [0..<n])" by (rule in_set_takeD)
    then have "x < n" by simp
    then show "(0 < f x) = (0 < g x)" by (simp add: assms)
  qed
  ultimately show ?thesis by simp
qed

lemma lexical_rank:
  "filter (\<lambda>i. 0 < normalised (kw ! i) (max_or_one kw))
          (take m (sort_key (\<lambda>i. - normalised (kw ! i) (max_or_one kw)) [0..<length kw])) =
   filter (\<lambda>i. 0 < kw ! i) (take m (sort_key (\<lambda>i. - (kw ! i)) [0..<length kw]))"
proof (cases "0 < max_or_one kw")
  case True
  have "sort_key (\<lambda>i. - normalised (kw ! i) (max_or_one kw)) [0..<length kw]
        = sort_key (\<lambda>i. - (kw ! i)) [0..<length kw]"
    using True by (intro sort_key_equiv) (auto simp add: normalised_def divide_le_cancel)
  moreover have "(0 < normalised (kw ! i) (max_or_one kw)) = (0 < kw ! i)" for i
    using True by (simp add: normalised_def zero_less_divide_iff)
  ultimately show ?thesis by simp
next
  case False
  have "\<not> 0 < kw ! i" if "i < length kw" for i
  proof -
    from that have ne: "kw \<noteq> []" by auto
    from that have "kw ! i \<in> set kw" by simp
    then have "kw ! i \<le> Max (set kw)" by simp
    also have "\<dots> = max_or_one kw" using ne by (simp add: max_or_one_def)
    finally show ?thesis using False by simp
  qed
  moreover have "x < length kw" if "x \<in> set (take m (sort_key (\<lambda>i. - (kw ! i)) [0..<length kw]))" for x
  proof -
    from that have "x \<in> set (sort_key (\<lambda>i. - (kw ! i)) [0..<length kw])" by (rule in_set_takeD)
    then show ?thesis by simp
  qed
  ultimately have "filter (\<lambda>i. 0 < kw ! i) (take m (sort_key (\<lambda>i. - (kw ! i)) [0..<length kw])) = []"
    by (simp only: filter_empty_conv) blast
  moreover have "filter (\<lambda>i. 0 < normalised (kw ! i) (max_or_one kw))
          (take m (sort_key (\<lambda>i. - normalised (kw ! i) (max_or_one kw)) [0..<length kw])) = []"
    using False by (simp add: normalised_def)
  ultimately show ?thesis by simp
qed


lemma hybrid_lexical_only:
  "map_sum id (map hybrid_index)
     (hybrid_search np (index_documents np self docs) query docs top_k 0) =
   Inr (filter (\<lambda>i. 0 < lexical_score query (docs ! i))
          (py_slice (sort_key (\<lambda>i. - lexical_score query (docs ! i)) [0..<length docs]) 0 top_k))"
proof -
  let ?kw = "map (lexical_score query) docs"
  let ?m = "slice_index (length docs) top_k"
  from search_scores [of np self docs query "int (length docs)" "3 / 10"]
  obtain rs where rs: "search np (index_documents np self docs) query (int (length docs)) (3 / 10) = Inr rs"
    by blast
  have c: "combined_score 0 (map (\<lambda>r. (index r, score r)) rs) ?kw i
           = normalised (?kw ! i) (max_or_one ?kw)" for i
    by (simp add: combined_score_def)
  have "filter (\<lambda>i. 0 < normalised (?kw ! i) (max_or_one ?kw))
          (take ?m (sort_key (\<lambda>i. - normalised (?kw ! i) (max_or_one ?kw)) [0..<length ?kw])) =
        filter (\<lambda>i. 0 < ?kw ! i) (take ?m (sort_key (\<lambda>i. - (?kw ! i)) [0..<length ?kw]))"
    by (rule lexical_rank)
  also have "\<dots> = filter (\<lambda>i. 0 < lexical_score query (docs ! i))
          (take ?m (sort_key (\<lambda>i. - lexical_score query (docs ! i)) [0..<length ?kw]))"
    by (rule same_keys_same_rank) simp
  finally have r: "filter (\<lambda>i. 0 < normalised (?kw ! i) (max_or_one ?kw))
          (take ?m (sort_key (\<lambda>i. - normalised (?kw ! i) (max_or_one ?kw)) [0..<length docs])) =
        filter (\<lambda>i. 0 < lexical_score query (docs ! i))
          (take ?m (sort_key (\<lambda>i. - lexical_score query (docs ! i)) [0..<length docs]))"
    by simp
  show ?thesis
    unfolding hybrid_indices [OF rs] c r by (simp add: slice_from_zero)
qed

lemma max_or_one_pos:
  assumes "\<forall>x \<in> set xs. 3 / 10 \<le> x"
  shows "0 < max_or_one xs"
proof (cases "xs = []")
  case True
  then show ?thesis by (simp add: max_or_one_def)
next
  case False
  then have "hd xs \<in> set xs" by simp
  then have "hd xs \<le> Max (set xs)" by simp
  moreover have "3 / 10 \<le> hd xs" using assms \<open>hd xs \<in> set xs\<close> by blast
  ultimately have "0 < Max (set xs)" by linarith
  with False show ?thesis by (simp add: max_or_one_def)
qed

lemma map_of_scores:
  "(case map_of (map (\<lambda>i. (i, f i)) ks) i of None \<Rightarrow> 0 | Some x \<Rightarrow> x)
     = (if i \<in> set ks then f i else (0::real))"
  by (simp add: map_of_map_restrict restrict_map_def)

lemma hybrid_semantic_only:
  assumes ok: "argsort_ok (similarities np (map (encode np) docs) query)
                 (argsort np (similarities np (map (encode np) docs) query))"
    and nt: "distinct (filter (\<lambda>x. 3 / 10 \<le> x) (similarities np (map (encode np) docs) query))"
  shows "map_sum id (map hybrid_index)
           (hybrid_search np (index_documents np self docs) query docs top_k 1) =
         map_sum id (map index)
           (search np (index_documents np self docs) query top_k (3 / 10))"
proof -
  let ?S = "similarities np (map (encode np) docs) query"
  let ?as = "argsort np ?S"
  let ?n = "length docs"
  let ?G = "\<lambda>i. 3 / 10 \<le> ?S ! i"
  let ?good = "filter ?G (rev ?as)"
  let ?sem = "map (\<lambda>i. (i, ?S ! i)) ?good"
  let ?kw = "map (lexical_score query) docs"
  let ?M = "max_or_one (map snd ?sem)"
  let ?m = "slice_index ?n top_k"
  have ls: "length ?S = ?n" by (simp add: similarities_def)
  from ok have perm: "mset ?as = mset [0..<?n]" and srt: "sorted (map (\<lambda>i. ?S ! i) ?as)"
    by (simp_all add: argsort_ok_def ls)
  from perm have "size (mset ?as) = size (mset [0..<?n])" by (rule arg_cong)
  then have la: "length ?as = ?n" by simp
  have "set ?as = set [0..<?n]" using perm by (rule mset_eq_setD)
  then have sets: "set ?as = {0..<?n}" by simp
  have full: "take (slice_index (length ?as) (int ?n)) (rev ?as) = rev ?as"
    by (simp add: la slice_index_def)
  from search_scores [of np self docs query "int ?n" "3 / 10"]
  obtain rs where rs: "search np (index_documents np self docs) query (int ?n) (3 / 10) = Inr rs"
    and sc: "map (\<lambda>r. (index r, score r)) rs = ?sem"
    unfolding full by blast
  have mpos: "0 < ?M"
    by (rule max_or_one_pos) auto
  have c: "combined_score 1 ?sem ?kw i = (if i \<in> set ?good then ?S ! i / ?M else 0)" for i
    using mpos by (simp add: combined_score_def map_of_scores normalised_def)
  have mem: "(i \<in> set ?good) = ?G i" if "i < ?n" for i
    using that sets by simp
  have rank: "filter (\<lambda>i. 0 < combined_score 1 ?sem ?kw i)
                (take ?m (sort_key (\<lambda>i. - combined_score 1 ?sem ?kw i) [0..<?n])) =
              filter ?G (take ?m (rev ?as))"
  proof (rule rank_by_score [OF perm srt])
    fix i assume i: "i < ?n" and g: "\<not> ?G i"
    have "combined_score 1 ?sem ?kw i = (if i \<in> set ?good then ?S ! i / ?M else 0)" by (rule c)
    also have "\<dots> = 0" using mem [OF i] g by simp
    finally show "combined_score 1 ?sem ?kw i = 0" .
  next
    fix i assume i: "i < ?n" and g: "?G i"
    have "combined_score 1 ?sem ?kw i = (if i \<in> set ?good then ?S ! i / ?M else 0)" by (rule c)
    also have "\<dots> = ?S ! i / ?M" using mem [OF i] g by simp
    finally have e: "combined_score 1 ?sem ?kw i = ?S ! i / ?M" .
    from g have "0 < ?S ! i" by linarith
    then have "0 < ?S ! i / ?M" using mpos by (rule divide_pos_pos)
    then show "0 < combined_score 1 ?sem ?kw i" by (simp only: e)
  next
    fix i j assume i: "i < ?n" and j: "j < ?n" and gi: "?G i" and gj: "?G j"
    have "combined_score 1 ?sem ?kw i = (if i \<in> set ?good then ?S ! i / ?M else 0)" by (rule c)
    also have "\<dots> = ?S ! i / ?M" using mem [OF i] gi by simp
    finally have ei: "combined_score 1 ?sem ?kw i = ?S ! i / ?M" .
    have "combined_score 1 ?sem ?kw j = (if j \<in> set ?good then ?S ! j / ?M else 0)" by (rule c)
    also have "\<dots> = ?S ! j / ?M" using mem [OF j] gj by simp
    finally have ej: "combined_score 1 ?sem ?kw j = ?S ! j / ?M" .
    have "(?S ! i / ?M \<le> ?S ! j / ?M) = (?S ! i \<le> ?S ! j)"
      using mpos by (simp add: divide_le_cancel)
    then show "(combined_score 1 ?sem ?kw i \<le> combined_score 1 ?sem ?kw j) = (?S ! i \<le> ?S ! j)"
      by (simp only: ei ej)
  next
    fix i j assume a: "i < ?n" "j < ?n" "?G i" "?S ! i = ?S ! j"
    show "i = j"
    proof (rule distinct_filter_nth [OF nt])
      show "i < length ?S" using a(1) by (simp add: ls)
      show "j < length ?S" using a(2) by (simp add: ls)
      show "3 / 10 \<le> ?S ! i" using a(3) .
      show "?S ! i = ?S ! j" using a(4) .
    qed
  qed
  show ?thesis
    unfolding hybrid_indices [OF rs] sc rank search_indices la ..
qed


text \<open>
  C2, as amended. The documents are the indexed ones. With \<open>alpha = 1\<close>,
  \<open>hybrid\_search\<close> returns the indices that \<open>search\<close> returns for the same
  \<open>top\_k\<close> and the default threshold 0.3, in the same order, provided \<open>np.argsort\<close>
  returns a sorting permutation and the similarities that reach 0.3 are pairwise different.
  With \<open>alpha = 0\<close>, and with no condition, it returns the documents of positive lexical
  overlap among the first \<open>top\_k\<close> of the stable descending sort by lexical overlap: the
  semantic scores play no part.
\<close>

theorem hybrid_rankings:
  "(argsort_ok (similarities np (map (encode np) docs) query)
       (argsort np (similarities np (map (encode np) docs) query))
     \<and> distinct (filter (\<lambda>x. 3 / 10 \<le> x) (similarities np (map (encode np) docs) query))
    \<longrightarrow>
      map_sum id (map hybrid_index)
        (hybrid_search np (index_documents np self docs) query docs top_k 1) =
      map_sum id (map index)
        (search np (index_documents np self docs) query top_k (3 / 10)))
   \<and> map_sum id (map hybrid_index)
        (hybrid_search np (index_documents np self docs) query docs top_k 0) =
      Inr (filter (\<lambda>i. 0 < lexical_score query (docs ! i))
             (py_slice (sort_key (\<lambda>i. - lexical_score query (docs ! i)) [0..<length docs]) 0 top_k))"
proof (intro conjI impI)
  assume "argsort_ok (similarities np (map (encode np) docs) query)
       (argsort np (similarities np (map (encode np) docs) query))
     \<and> distinct (filter (\<lambda>x. 3 / 10 \<le> x) (similarities np (map (encode np) docs) query))"
  then have ok: "argsort_ok (similarities np (map (encode np) docs) query)
       (argsort np (similarities np (map (encode np) docs) query))"
    and nt: "distinct (filter (\<lambda>x. 3 / 10 \<le> x) (similarities np (map (encode np) docs) query))"
    by simp_all
  from ok nt
  show "map_sum id (map hybrid_index)
        (hybrid_search np (index_documents np self docs) query docs top_k 1) =
      map_sum id (map index)
        (search np (index_documents np self docs) query top_k (3 / 10))"
    by (rule hybrid_semantic_only)
next
  show "map_sum id (map hybrid_index)
        (hybrid_search np (index_documents np self docs) query docs top_k 0) =
      Inr (filter (\<lambda>i. 0 < lexical_score query (docs ! i))
             (py_slice (sort_key (\<lambda>i. - lexical_score query (docs ! i)) [0..<length docs]) 0 top_k))"
    by (rule hybrid_lexical_only)
qed

text \<open>
  C2 as stated fails when two documents have the same similarity: \<open>search\<close> reverses the
  ascending \<open>np.argsort\<close>, so the later document comes first, and \<open>sorted\<close> with
  \<open>reverse=True\<close> in \<open>hybrid\_search\<close> is stable, so the earlier one does.
\<close>

lemma example_argsort: "argsort example_numpy = stable_argsort"
  by (simp add: example_numpy_def)

lemma search_tie:
  "map_sum id (map index)
     (search example_numpy (index_documents example_numpy new_search [''cat sat'', ''cat sat''])
        ''cat'' 2 (3 / 10)) = Inr [1, 0]"
  unfolding search_indices sims_tie example_argsort argsort_tie
  by (simp add: slice_index_def)

lemma scores_tie:
  "\<exists>rs. search example_numpy (index_documents example_numpy new_search [''cat sat'', ''cat sat''])
           ''cat'' (int (length [''cat sat'', ''cat sat''])) (3 / 10) = Inr rs
      \<and> map (\<lambda>r. (index r, score r)) rs = [(1, 1), (0, 1)]"
proof -
  from search_scores [of example_numpy new_search "[''cat sat'', ''cat sat'']" "''cat''"
        "int (length [''cat sat'', ''cat sat''])" "3 / 10"]
  obtain rs where
    a: "search example_numpy (index_documents example_numpy new_search [''cat sat'', ''cat sat''])
           ''cat'' (int (length [''cat sat'', ''cat sat''])) (3 / 10) = Inr rs"
    and b: "map (\<lambda>r. (index r, score r)) rs =
         map (\<lambda>i. (i, similarities example_numpy (map (encode example_numpy) [''cat sat'', ''cat sat'']) ''cat'' ! i))
           (filter (\<lambda>i. 3 / 10 \<le> similarities example_numpy (map (encode example_numpy) [''cat sat'', ''cat sat'']) ''cat'' ! i)
             (take (slice_index (length (argsort example_numpy (similarities example_numpy (map (encode example_numpy) [''cat sat'', ''cat sat'']) ''cat'')))
                      (int (length [''cat sat'', ''cat sat''])))
                (rev (argsort example_numpy (similarities example_numpy (map (encode example_numpy) [''cat sat'', ''cat sat'']) ''cat'')))))"
    by blast
  from b have "map (\<lambda>r. (index r, score r)) rs = [(1, 1), (0, 1)]"
    unfolding sims_tie example_argsort argsort_tie by (simp add: slice_index_def)
  with a have "search example_numpy (index_documents example_numpy new_search [''cat sat'', ''cat sat''])
           ''cat'' (int (length [''cat sat'', ''cat sat''])) (3 / 10) = Inr rs
      \<and> map (\<lambda>r. (index r, score r)) rs = [(1, 1), (0, 1)]"
    by (rule conjI)
  then show ?thesis by (rule exI)
qed

theorem equal_scores_counterexample:
  "map_sum id (map index)
     (search example_numpy (index_documents example_numpy new_search [''cat sat'', ''cat sat''])
        ''cat'' 2 (3 / 10)) = Inr [1, 0]
   \<and> map_sum id (map hybrid_index)
     (hybrid_search example_numpy (index_documents example_numpy new_search [''cat sat'', ''cat sat''])
        ''cat'' [''cat sat'', ''cat sat''] 2 1) = Inr [0, 1]"
proof (rule conjI)
  show "map_sum id (map index)
     (search example_numpy (index_documents example_numpy new_search [''cat sat'', ''cat sat''])
        ''cat'' 2 (3 / 10)) = Inr [1, 0]"
    by (rule search_tie)
  from scores_tie obtain rs where
    ab: "search example_numpy (index_documents example_numpy new_search [''cat sat'', ''cat sat''])
           ''cat'' (int (length [''cat sat'', ''cat sat''])) (3 / 10) = Inr rs
      \<and> map (\<lambda>r. (index r, score r)) rs = [(1, 1), (0, 1)]"
    by (rule exE)
  note a = ab [THEN conjunct1] and b = ab [THEN conjunct2]
  have c: "combined_score 1 [(Suc 0, 1), (0, 1)] kw 0 = 1"
    "combined_score 1 [(Suc 0, 1), (0, 1)] kw (Suc 0) = 1" for kw
    by (simp_all add: combined_score_def max_or_one_def normalised_def)
  show "map_sum id (map hybrid_index)
     (hybrid_search example_numpy (index_documents example_numpy new_search [''cat sat'', ''cat sat''])
        ''cat'' [''cat sat'', ''cat sat''] 2 1) = Inr [0, 1]"
    unfolding hybrid_indices [OF a] b
    by (simp add: upt_2 c slice_index_def)
qed

text \<open>
  Two documents of different similarity: both methods rank them alike with \<open>alpha = 1\<close>,
  and with \<open>alpha = 0\<close> only the document that shares a term with the query is returned.
\<close>

lemma lexical_cat:
  "lexical_score ''cat'' ''cat sat'' = 1"
  "lexical_score ''cat'' ''dog ran'' = 0"
  by (simp_all add: lexical_score_def terms_of_def py_split_def py_lower_def lower_char_def is_space_def)

lemma search_distinct:
  "map_sum id (map index)
     (search example_numpy (index_documents example_numpy new_search [''cat sat'', ''dog ran''])
        ''cat'' 2 (3 / 10)) = Inr [0, 1]"
  unfolding search_indices sims_distinct example_argsort argsort_distinct
  by (simp add: slice_index_def)

theorem hybrid_rankings_witness:
  "argsort_ok (similarities example_numpy (map (encode example_numpy) [''cat sat'', ''dog ran'']) ''cat'')
       (argsort example_numpy (similarities example_numpy (map (encode example_numpy) [''cat sat'', ''dog ran'']) ''cat''))
   \<and> distinct (filter (\<lambda>x. 3 / 10 \<le> x)
        (similarities example_numpy (map (encode example_numpy) [''cat sat'', ''dog ran'']) ''cat''))
   \<and> map_sum id (map index)
        (search example_numpy (index_documents example_numpy new_search [''cat sat'', ''dog ran''])
           ''cat'' 2 (3 / 10)) = Inr [0, 1]
   \<and> map_sum id (map hybrid_index)
        (hybrid_search example_numpy (index_documents example_numpy new_search [''cat sat'', ''dog ran''])
           ''cat'' [''cat sat'', ''dog ran''] 2 1) = Inr [0, 1]
   \<and> map_sum id (map hybrid_index)
        (hybrid_search example_numpy (index_documents example_numpy new_search [''cat sat'', ''dog ran''])
           ''cat'' [''cat sat'', ''dog ran''] 2 0) = Inr [0]"
proof -
  note th = hybrid_rankings [of example_numpy "[''cat sat'', ''dog ran'']" "''cat''" new_search 2]
  have ok: "argsort_ok (similarities example_numpy (map (encode example_numpy) [''cat sat'', ''dog ran'']) ''cat'')
       (argsort example_numpy (similarities example_numpy (map (encode example_numpy) [''cat sat'', ''dog ran'']) ''cat''))"
    unfolding example_argsort by (rule stable_argsort_ok)
  have nt: "distinct (filter (\<lambda>x. 3 / 10 \<le> x)
        (similarities example_numpy (map (encode example_numpy) [''cat sat'', ''dog ran'']) ''cat''))"
    unfolding sims_distinct by simp
  from ok nt have h: "argsort_ok (similarities example_numpy (map (encode example_numpy) [''cat sat'', ''dog ran'']) ''cat'')
       (argsort example_numpy (similarities example_numpy (map (encode example_numpy) [''cat sat'', ''dog ran'']) ''cat''))
     \<and> distinct (filter (\<lambda>x. 3 / 10 \<le> x)
        (similarities example_numpy (map (encode example_numpy) [''cat sat'', ''dog ran'']) ''cat''))"
    by (rule conjI)
  have e: "map_sum id (map hybrid_index)
        (hybrid_search example_numpy (index_documents example_numpy new_search [''cat sat'', ''dog ran''])
           ''cat'' [''cat sat'', ''dog ran''] 2 1) = Inr [0, 1]"
    unfolding th [THEN conjunct1, rule_format, OF h] by (rule search_distinct)
  have l: "map_sum id (map hybrid_index)
        (hybrid_search example_numpy (index_documents example_numpy new_search [''cat sat'', ''dog ran''])
           ''cat'' [''cat sat'', ''dog ran''] 2 0) = Inr [0]"
    unfolding th [THEN conjunct2]
    by (simp add: upt_2 lexical_cat slice_from_zero slice_index_def)
  from ok nt search_distinct e l show ?thesis by (intro conjI)
qed

text \<open>
  The lexical overlap ignores case and is the share of the query terms found in the document.
\<close>

lemma lexical_example:
  "lexical_score ''Cat'' ''the CAT sat'' = 1"
  "lexical_score ''cat dog'' ''dog ran'' = 1 / 2"
  by (simp_all add: lexical_score_def terms_of_def py_split_def py_lower_def lower_char_def is_space_def)

end
